theory Spec2Isabelle
  imports Main "HOL-Library.Word"
begin

unbundle bit_operations_syntax

section \<open>Machine types\<close>

text \<open>
  \<open>size_t\<close>, \<open>uintptr_t\<close> and \<open>intptr_t\<close> of an LP64 build are 64-bit words;
  \<open>int\<close> and \<open>unsigned int\<close> are 32-bit words. Arithmetic on words wraps around
  as the unsigned C arithmetic of \<open>os.cpp\<close> does.
\<close>

type_synonym size_t = "64 word"
type_synonym uintptr_t = "64 word"
type_synonym uint = "32 word"

section \<open>Thread priorities: \<open>os::get_priority\<close>\<close>

text \<open>
  \<open>OSReturn\<close> is the result code of the platform calls. The enumeration itself lives in
  \<open>os.hpp\<close>; \<open>os.cpp\<close> only distinguishes \<open>OS_OK\<close> from everything else.
\<close>

datatype OSReturn = OS_OK | OS_ERR | OS_INTRPT | OS_TIMEOUT | OS_NOMEM | OS_NORESOURCE

text \<open>
  The bounds \<open>MinPriority\<close>, \<open>MaxPriority\<close> of the \<open>ThreadPriority\<close> enumeration and the
  platform table \<open>java_to_os_priority\<close> are declared outside \<open>os.cpp\<close>; they are the
  parameters of the model. The table is a C array indexed by the priority.
\<close>

record priority_table =
  MinPriority :: int
  MaxPriority :: int
  java_to_os_priority :: "int \<Rightarrow> int"

text \<open>
  \<^verbatim>\<open>for (p = MaxPriority; p > MinPriority && java_to_os_priority[p] > os_prio; p--) ;\<close>
  The function is the loop from a given value of \<open>p\<close> on; it returns the final \<open>p\<close>.
\<close>

function scan_ascending :: "priority_table \<Rightarrow> int \<Rightarrow> int \<Rightarrow> int" where
  "scan_ascending t os_prio p =
     (if p > MinPriority t \<and> java_to_os_priority t p > os_prio
      then scan_ascending t os_prio (p - 1) else p)"
  by pat_completeness auto
termination
  by (relation "measure (\<lambda>(t, os_prio, p). nat (p - MinPriority t))") auto

text \<open>
  \<^verbatim>\<open>for (p = MaxPriority; p > MinPriority && java_to_os_priority[p] < os_prio; p--) ;\<close>
  (niceness values are in reverse order).
\<close>

function scan_reversed :: "priority_table \<Rightarrow> int \<Rightarrow> int \<Rightarrow> int" where
  "scan_reversed t os_prio p =
     (if p > MinPriority t \<and> java_to_os_priority t p < os_prio
      then scan_reversed t os_prio (p - 1) else p)"
  by pat_completeness auto
termination
  by (relation "measure (\<lambda>(t, os_prio, p). nat (p - MinPriority t))") auto

text \<open>
  \<open>os::get_priority\<close>. The outcome of \<open>get_native_priority(thread, &os_prio)\<close> is the
  argument \<open>native\<close>: its return code and the value it stored into \<open>os_prio\<close>. The
  reference parameter \<open>priority\<close> is passed in and returned: it keeps its old value when
  the native query fails.
\<close>

definition get_priority :: "priority_table \<Rightarrow> OSReturn \<times> int \<Rightarrow> int \<Rightarrow> OSReturn \<times> int" where
  "get_priority t native priority =
     (let ret = fst native; os_prio = snd native in
      if ret \<noteq> OS_OK then (ret, priority)
      else if java_to_os_priority t (MaxPriority t) > java_to_os_priority t (MinPriority t)
      then (OS_OK, scan_ascending t os_prio (MaxPriority t))
      else (OS_OK, scan_reversed t os_prio (MaxPriority t)))"

section \<open>Safe probing: \<open>os::is_readable_pointer\<close>\<close>

text \<open>
  The readable part of the address space: a partial map from addresses to the 32-bit
  value stored there. An address outside its domain faults when read.
\<close>

type_synonym memory = "uintptr_t \<rightharpoonup> uint"

text \<open>
  Modelled from the spec: \<open>SafeFetch32\<close> (\<open>safefetch.hpp\<close>) is the fault-tolerant
  32-bit read; "the read either returns the actual value or a sentinel without crashing
  the process". The sentinel is the caller's \<open>errValue\<close>.
\<close>

definition SafeFetch32 :: "memory \<Rightarrow> uintptr_t \<Rightarrow> uint \<Rightarrow> uint" where
  "SafeFetch32 mem adr errValue = (case mem adr of Some v \<Rightarrow> v | None \<Rightarrow> errValue)"

text \<open>
  Modelled from the spec: \<open>align_down\<close> (\<open>align.hpp\<close>) "aligns \<open>p\<close> down" to a
  power-of-two boundary by clearing the bits below the alignment.
\<close>

definition align_down :: "uintptr_t \<Rightarrow> uintptr_t \<Rightarrow> uintptr_t" where
  "align_down x alignment = x AND NOT (alignment - 1)"

definition is_readable_pointer :: "memory \<Rightarrow> uintptr_t \<Rightarrow> bool" where
  "is_readable_pointer mem p =
     (let aligned = align_down p 4;
          cafebabe = 0xcafebabe;
          deadbeef = 0xdeadbeef
      in SafeFetch32 mem aligned cafebabe \<noteq> cafebabe \<or> SafeFetch32 mem aligned deadbeef \<noteq> deadbeef)"

text \<open>
  \<open>os::is_readable_range\<close>. \<open>min_page_size()\<close> is declared in \<open>os.hpp\<close> and is a
  parameter here. The loop
  \<^verbatim>\<open>for (p = align_down(from, min_page_size()); p < to; p += min_page_size())\<close>
  adds with wrap-around, so it need not end (a range reaching the top of the address
  space over readable memory): the result is an option, \<open>None\<close> when the loop does not
  return. Beside the boolean the model returns the addresses it probed, in order.
\<close>

partial_function (option) is_readable_range_loop ::
  "memory \<Rightarrow> uintptr_t \<Rightarrow> uintptr_t \<Rightarrow> uintptr_t \<Rightarrow> (bool \<times> uintptr_t list) option" where
  "is_readable_range_loop mem min_page_size to p =
     (if p < to then
        if \<not> is_readable_pointer mem p then Some (False, [p])
        else Option.bind (is_readable_range_loop mem min_page_size to (p + min_page_size))
               (\<lambda>r. Some (fst r, p # snd r))
      else Some (True, []))"

definition is_readable_range ::
  "memory \<Rightarrow> uintptr_t \<Rightarrow> uintptr_t \<Rightarrow> uintptr_t \<Rightarrow> (bool \<times> uintptr_t list) option" where
  "is_readable_range mem min_page_size from to =
     (if from \<ge> to then Some (False, [])
      else is_readable_range_loop mem min_page_size to (align_down from min_page_size))"


section \<open>Page size registry: \<open>os::PageSizes\<close>\<close>

text \<open>
  Modelled from the spec: \<open>round_down_power_of_2\<close> (\<open>powerOfTwo.hpp\<close>) "returns the
  highest surviving bit" of a non-zero value, that is \<open>1 << log2i(value)\<close>, and
  \<open>count_trailing_zeros\<close> (\<open>count_trailing_zeros.hpp\<close>) is the index of "the lowest
  surviving bit". Both are computed on the unsigned value by halving.
\<close>

function log2i :: "nat \<Rightarrow> nat" where
  "log2i n = (if n < 2 then 0 else Suc (log2i (n div 2)))"
  by pat_completeness auto
termination
  by (relation "measure id") auto

function count_trailing_zeros_nat :: "nat \<Rightarrow> nat" where
  "count_trailing_zeros_nat n = (if n = 0 \<or> odd n then 0 else Suc (count_trailing_zeros_nat (n div 2)))"
  by pat_completeness auto
termination
  by (relation "measure id") auto

declare log2i.simps [simp del] count_trailing_zeros_nat.simps [simp del]

definition round_down_power_of_2 :: "size_t \<Rightarrow> size_t" where
  "round_down_power_of_2 v = push_bit (log2i (unat v)) 1"

definition count_trailing_zeros :: "size_t \<Rightarrow> nat" where
  "count_trailing_zeros v = count_trailing_zeros_nat (unat v)"

text \<open>
  Modelled from the spec: \<open>max_power_of_2<size_t>()\<close> (\<open>powerOfTwo.hpp\<close>) is "the
  maximum representable power of two", \<open>2 ^ 63\<close> for a 64-bit \<open>size_t\<close>.
\<close>

definition max_power_of_2 :: size_t where
  "max_power_of_2 = push_bit 63 1"

text \<open>
  A \<open>PageSizes\<close> object is its bit mask \<open>_v\<close>. The methods assert that their argument
  is a power of two; the properties below are stated for arguments \<open>2 ^ k\<close>.
\<close>

definition add_page_size :: "size_t \<Rightarrow> size_t \<Rightarrow> size_t" where
  "add_page_size v page_size = v OR page_size"

definition contains :: "size_t \<Rightarrow> size_t \<Rightarrow> bool" where
  "contains v page_size = (v AND page_size \<noteq> 0)"

definition next_smaller :: "size_t \<Rightarrow> size_t \<Rightarrow> size_t" where
  "next_smaller v page_size =
     (let v2 = v AND (page_size - 1) in
      if v2 = 0 then 0 else round_down_power_of_2 v2)"

definition next_larger :: "size_t \<Rightarrow> size_t \<Rightarrow> size_t" where
  "next_larger v page_size =
     (if page_size = max_power_of_2 then 0
      else let v2 = v AND NOT (page_size + (page_size - 1)) in
           if v2 = 0 then 0 else push_bit (count_trailing_zeros v2) 1)"

definition largest :: "size_t \<Rightarrow> size_t" where
  "largest v = (let max = max_power_of_2 in if contains v max then max else next_smaller v max)"

definition smallest :: "size_t \<Rightarrow> size_t" where
  "smallest v = next_larger v 1"

text \<open>
  The page sizes a mask stands for: bit \<open>k\<close> set means page size \<open>2 ^ k\<close> is supported.
\<close>

definition page_sizes_of :: "size_t \<Rightarrow> size_t set" where
  "page_sizes_of v = (\<lambda>k. 2 ^ k) ` {k. k < 64 \<and> bit v k}"

text \<open>The mask of the example: 4K, 16K and 2M added to the empty mask.\<close>

definition mask_4K_16K_2M :: size_t where
  "mask_4K_16K_2M = add_page_size (add_page_size (add_page_size 0 0x1000) 0x4000) 0x200000"

section \<open>\<open>os::page_size_for_region\<close>\<close>

text \<open>
  Modelled from the spec: \<open>is_aligned\<close> (\<open>align.hpp\<close>) tests that the size "is a
  multiple of" a power-of-two alignment by masking the low bits.
\<close>

definition is_aligned :: "size_t \<Rightarrow> size_t \<Rightarrow> bool" where
  "is_aligned sz alignment = (sz AND (alignment - 1) = 0)"

text \<open>
  The walk of \<open>page_size_for_region\<close> goes on while \<open>page_size != 0\<close>, from
  \<open>next_smaller\<close> to \<open>next_smaller\<close>. It ends because \<open>next_smaller\<close> of a non-zero
  size is strictly smaller; the lemmas up to \<open>next_smaller_less\<close> establish that.
\<close>

lemma log2i_bit: "0 < n \<Longrightarrow> bit n (log2i n) \<and> (\<forall>i. bit n i \<longrightarrow> i \<le> log2i n)"
proof (induction n rule: log2i.induct)
  case (1 n)
  show ?case
  proof (cases "n < 2")
    case True
    with "1.prems" have "n = 1" by simp
    then show ?thesis by (simp add: log2i.simps bit_Suc_0_iff)
  next
    case False
    then have pos: "0 < n div 2" by simp
    from "1.IH" False pos have IH: "bit (n div 2) (log2i (n div 2))"
      "\<And>i. bit (n div 2) i \<Longrightarrow> i \<le> log2i (n div 2)" by auto
    have eq: "log2i n = Suc (log2i (n div 2))" using False by (subst log2i.simps) simp
    have "bit n (log2i n)" using IH(1) by (simp add: eq bit_Suc)
    moreover have "i \<le> log2i n" if "bit n i" for i
    proof (cases i)
      case 0 then show ?thesis by simp
    next
      case (Suc j)
      with that have "bit (n div 2) j" by (simp add: bit_Suc)
      then show ?thesis using IH(2) Suc eq by simp
    qed
    ultimately show ?thesis by blast
  qed
qed

lemma unat_p2: "k < 64 \<Longrightarrow> unat ((2::size_t) ^ k) = 2 ^ k"
proof -
  assume k: "k < 64"
  then have lt: "(2::nat) ^ k < 2 ^ 64" by (intro power_strict_increasing) simp_all
  have "(2::size_t) ^ k = of_nat (2 ^ k)" by simp
  then have "unat ((2::size_t) ^ k) = 2 ^ k mod 2 ^ 64"
    by (simp only: unat_of_nat) simp
  also have "\<dots> = 2 ^ k" using lt by simp
  finally show ?thesis .
qed

lemma word_pos_unat: "(v::size_t) \<noteq> 0 \<Longrightarrow> 0 < unat v"
  by (simp add: unat_gt_0)

lemma bit_unat_word: "bit (unat (v::size_t)) i = bit v i"
  by (simp add: bit_unsigned_iff)

lemma log2i_le: "0 < n \<Longrightarrow> 2 ^ log2i n \<le> n"
proof -
  assume "0 < n"
  then have "bit n (log2i n)" using log2i_bit by blast
  then have "odd (n div 2 ^ log2i n)" by (simp add: bit_iff_odd)
  then have "0 < n div 2 ^ log2i n" by (rule odd_pos)
  then show ?thesis by (simp add: div_greater_zero_iff)
qed

lemma round_down_power_of_2_le: "v \<noteq> 0 \<Longrightarrow> round_down_power_of_2 v \<le> v"
proof -
  assume nz: "v \<noteq> 0"
  then have pos: "0 < unat v" by (rule word_pos_unat)
  from log2i_bit [OF pos] have "bit v (log2i (unat v))" by (simp add: bit_unat_word)
  then have "log2i (unat v) < 64" by (auto dest: bit_imp_le_length)
  then have "unat (round_down_power_of_2 v) = 2 ^ log2i (unat v)"
    by (simp add: round_down_power_of_2_def unat_p2)
  with log2i_le [OF pos] show ?thesis by (simp add: word_le_nat_alt)
qed

lemma next_smaller_less: "p \<noteq> 0 \<Longrightarrow> next_smaller v p < p"
proof -
  assume nz: "p \<noteq> 0"
  then have lt: "p - 1 < p" by (simp add: word_less_nat_alt unat_minus_one unat_gt_0)
  have le: "v AND (p - 1) \<le> p - 1" by (rule word_and_le1)
  show ?thesis
  proof (cases "v AND (p - 1) = 0")
    case True
    then show ?thesis using nz by (simp add: next_smaller_def word_gt_0)
  next
    case False
    then have "next_smaller v p \<le> v AND (p - 1)"
      by (simp add: next_smaller_def round_down_power_of_2_le)
    with le lt show ?thesis by simp
  qed
qed

text \<open>
  \<^verbatim>\<open>for (size_t page_size = page_sizes().largest(); page_size != 0;
       page_size = page_sizes().next_smaller(page_size)) {
    if (page_size <= max_page_size) {
      if (!must_be_aligned || is_aligned(region_size, page_size)) return page_size;
    }
  }\<close>
  The function is the loop from a given \<open>page_size\<close> on: \<open>Some\<close> the size returned from
  inside the loop, \<open>None\<close> when the loop runs out.
\<close>

function page_size_walk :: "size_t \<Rightarrow> size_t \<Rightarrow> size_t \<Rightarrow> bool \<Rightarrow> size_t \<Rightarrow> size_t option" where
  "page_size_walk v region_size max_page_size must_be_aligned page_size =
     (if page_size \<noteq> 0 then
        if page_size \<le> max_page_size \<and> (\<not> must_be_aligned \<or> is_aligned region_size page_size)
        then Some page_size
        else page_size_walk v region_size max_page_size must_be_aligned (next_smaller v page_size)
      else None)"
  by pat_completeness auto
termination
  by (relation "measure (\<lambda>(v, r, m, a, p). unat p)")
     (simp_all add: next_smaller_less flip: word_less_nat_alt)

declare page_size_walk.simps [simp del]

text \<open>
  The flag \<open>UseLargePages\<close>, the registered mask \<open>page_sizes()\<close> and the base page size
  \<open>vm_page_size()\<close> are globals set up elsewhere. \<open>min_pages > 0\<close> is asserted by the
  code (the division is undefined otherwise).
\<close>

record page_config =
  UseLargePages :: bool
  page_sizes :: size_t
  vm_page_size :: size_t

definition page_size_for_region :: "page_config \<Rightarrow> size_t \<Rightarrow> size_t \<Rightarrow> bool \<Rightarrow> size_t" where
  "page_size_for_region c region_size min_pages must_be_aligned =
     (if UseLargePages c then
        let max_page_size = region_size div min_pages in
        case page_size_walk (page_sizes c) region_size max_page_size must_be_aligned (largest (page_sizes c)) of
          Some page_size \<Rightarrow> page_size
        | None \<Rightarrow> vm_page_size c
      else vm_page_size c)"

text \<open>
  The statement of the walk in the spec's words: the registered sizes from largest to
  smallest, and the test a size has to pass.
\<close>

definition registered_below :: "size_t \<Rightarrow> nat \<Rightarrow> size_t list" where
  "registered_below v n = map (\<lambda>i. 2 ^ i) (filter (bit v) (rev [0..<n]))"

definition registered_descending :: "size_t \<Rightarrow> size_t list" where
  "registered_descending v = registered_below v 64"

definition qualifies :: "size_t \<Rightarrow> size_t \<Rightarrow> bool \<Rightarrow> size_t \<Rightarrow> bool" where
  "qualifies region_size min_pages must_be_aligned page_size =
     (unat region_size div unat min_pages \<ge> unat page_size
      \<and> (must_be_aligned \<longrightarrow> unat page_size dvd unat region_size))"

section \<open>Random numbers: \<open>os::next_random\<close>\<close>

text \<open>
  \<open>os::next_random\<close> on 32-bit \<open>unsigned int\<close>: every operation wraps around modulo
  \<open>2 ^ 32\<close>. The C function returns \<open>lo\<close> converted to \<open>int\<close>; the result here is the
  word, read as a signed value by \<open>sint\<close>.
\<close>

definition next_random :: "uint \<Rightarrow> uint" where
  "next_random rand_seed =
     (let a = 16807;
          m = 2147483647;
          lo = a * (rand_seed AND 0xFFFF);
          hi = a * (drop_bit 16 rand_seed);
          lo = lo + push_bit 16 (hi AND 0x7FFF);
          lo = (if lo > m then (lo AND m) + 1 else lo);
          lo = lo + drop_bit 15 hi;
          lo = (if lo > m then (lo AND m) + 1 else lo)
      in lo)"

text \<open>
  The same computation on natural numbers, without wrap-around. It is a device of the
  proof: \<open>unat_next_random\<close> shows that no operation of \<open>next_random\<close> overflows.
\<close>

definition next_random_nat :: "nat \<Rightarrow> nat" where
  "next_random_nat s =
     (let lo = 16807 * (s mod 65536);
          hi = 16807 * (s div 65536);
          lo = lo + 65536 * (hi mod 32768);
          lo = (if lo > 2147483647 then lo mod 2147483648 + 1 else lo);
          lo = lo + hi div 32768;
          lo = (if lo > 2147483647 then lo mod 2147483648 + 1 else lo)
      in lo)"

text \<open>
  The generator the comment of \<open>os::next_random\<close> documents,
  \<open>next_rand = (16807 * seed) mod (2^31 - 1)\<close>, on natural numbers, and its powers.
\<close>

definition lcg :: "nat \<Rightarrow> nat" where
  "lcg s = (16807 * s) mod 2147483647"

definition lcg_power :: "nat \<Rightarrow> nat" where
  "lcg_power n = 16807 ^ n mod 2147483647"

text \<open>
  Devices of the period proof: modular exponentiation by squaring, to evaluate powers
  of 16807, and numbers whose only divisors are 1 and themselves.
\<close>

function powmod :: "nat \<Rightarrow> nat \<Rightarrow> nat \<Rightarrow> nat" where
  "powmod a n m =
     (if n = 0 then 1 mod m
      else let h = powmod a (n div 2) m; s = (h * h) mod m
           in if even n then s else (s * a) mod m)"
  by pat_completeness auto
termination
  by (relation "measure (\<lambda>(a, n, m). n)") auto

declare powmod.simps [simp del]

definition trivial_divisors :: "nat \<Rightarrow> bool" where
  "trivial_divisors q = (\<forall>d. d dvd q \<longrightarrow> d = 1 \<or> d = q)"

section \<open>Signal dispatch thread: \<open>signal_thread_entry\<close>\<close>

text \<open>
  The states of the attach listener (\<open>attachListener.hpp\<close>), and what the thread does
  that can be observed: the VM operations and dumps of the \<open>SIGBREAK\<close> case, the upcall
  \<open>jdk.internal.misc.Signal.dispatch(sig)\<close>, and the warning printed for a pending
  exception (with the exception's class name and the signal).
\<close>

datatype AttachListenerState = AL_NOT_INITIALIZED | AL_INITIALIZING | AL_INITIALIZED

datatype action =
    SetAttachState AttachListenerState
  | PrintThreads
  | FindDeadlocks
  | PrintHeapAtSIGBREAK
  | HeapInspection
  | PostDataDump
  | CallDispatch int
  | Warning string int

text \<open>
  The thread is blocked in \<open>os::signal_wait()\<close> (\<open>WAITING\<close>), runs the body of the
  \<open>switch\<close> for the signal it received (\<open>DISPATCHING\<close>), or has returned from
  \<open>signal_thread_entry\<close> (\<open>TERMINATED\<close>).
\<close>

datatype phase = WAITING | DISPATCHING int | TERMINATED

text \<open>
  Platform constants and VM flags the loop reads, declared outside \<open>os.cpp\<close>.
\<close>

record signal_config =
  sigexitnum_pd :: int
  SIGBREAK :: int
  DisableAttachMechanism :: bool
  PrintClassHistogram :: bool

text \<open>
  What the callees answer during one run of the \<open>switch\<close> body:
  \<open>AttachListener::transit_state(AL_INITIALIZING, AL_NOT_INITIALIZED)\<close>,
  \<open>is_init_trigger()\<close>, \<open>check_socket_file()\<close>, \<open>JvmtiExport::should_post_data_dump()\<close>,
  whether \<open>resolve_or_null\<close> found the class, the class name of the exception left
  pending by the resolution or the upcall (if any), and whether \<open>tty\<close> is not null.
\<close>

record handler_env =
  transit_state :: AttachListenerState
  is_init_trigger :: bool
  check_socket_file :: bool
  should_post_data_dump :: bool
  klass_resolved :: bool
  raised :: "string option"
  tty_present :: bool

record signal_thread =
  phase :: phase
  pending_exception :: "string option"
  actions :: "action list"

definition do_actions :: "action list \<Rightarrow> signal_thread \<Rightarrow> signal_thread" where
  "do_actions as s = s\<lparr>actions := actions s @ as\<rparr>"

text \<open>
  The \<open>INCLUDE_SERVICES\<close> part of \<open>case SIGBREAK\<close>. The boolean is true when the code
  executes \<open>continue\<close>.
\<close>

definition attach_negotiation :: "signal_config \<Rightarrow> handler_env \<Rightarrow> signal_thread \<Rightarrow> bool \<times> signal_thread" where
  "attach_negotiation c e s =
     (if \<not> DisableAttachMechanism c then
        let cur_state = transit_state e in
        if cur_state = AL_INITIALIZING then (True, s)
        else if cur_state = AL_NOT_INITIALIZED then
          (if is_init_trigger e then (True, s)
           else (False, do_actions [SetAttachState AL_NOT_INITIALIZED] s))
        else if check_socket_file e then (True, s)
        else (False, s)
      else (False, s))"

definition sigbreak_handler :: "signal_config \<Rightarrow> handler_env \<Rightarrow> signal_thread \<Rightarrow> signal_thread" where
  "sigbreak_handler c e s =
     (let (continue, s) = attach_negotiation c e s in
      if continue then s
      else
        let s = do_actions [PrintThreads, FindDeadlocks, PrintHeapAtSIGBREAK] s;
            s = (if PrintClassHistogram c then do_actions [HeapInspection] s else s);
            s = (if should_post_data_dump e then do_actions [PostDataDump] s else s)
        in s)"

text \<open>
  The \<open>default\<close> case: the upcall, then
  \<^verbatim>\<open>if (HAS_PENDING_EXCEPTION) { if (tty != nullptr) { ... warning(...); } CLEAR_PENDING_EXCEPTION; }\<close>
\<close>

definition default_handler :: "handler_env \<Rightarrow> int \<Rightarrow> signal_thread \<Rightarrow> signal_thread" where
  "default_handler e sig s =
     (let s = (if klass_resolved e then do_actions [CallDispatch sig] s else s);
          s = s\<lparr>pending_exception := raised e\<rparr>
      in case pending_exception s of
           Some klass_name \<Rightarrow>
             let s = (if tty_present e then do_actions [Warning klass_name sig] s else s)
             in s\<lparr>pending_exception := None\<rparr>
         | None \<Rightarrow> s)"

definition handler :: "signal_config \<Rightarrow> handler_env \<Rightarrow> int \<Rightarrow> signal_thread \<Rightarrow> signal_thread" where
  "handler c e sig s = (if sig = SIGBREAK c then sigbreak_handler c e s else default_handler e sig s)"

text \<open>
  One step of the thread: \<open>signal_wait\<close> returns a signal (the exit signal ends the
  thread, any other one is dispatched), or the handler of the signal runs and the loop
  goes back to waiting.
\<close>

datatype label = Receive int | Handle handler_env

inductive step :: "signal_config \<Rightarrow> signal_thread \<Rightarrow> label \<Rightarrow> signal_thread \<Rightarrow> bool"
  for c :: signal_config where
    receive_exit:
      "phase s = WAITING \<Longrightarrow> sig = sigexitnum_pd c \<Longrightarrow>
       step c s (Receive sig) (s\<lparr>phase := TERMINATED\<rparr>)"
  | receive_signal:
      "phase s = WAITING \<Longrightarrow> sig \<noteq> sigexitnum_pd c \<Longrightarrow>
       step c s (Receive sig) (s\<lparr>phase := DISPATCHING sig\<rparr>)"
  | dispatch:
      "phase s = DISPATCHING sig \<Longrightarrow>
       step c s (Handle e) ((handler c e sig s)\<lparr>phase := WAITING\<rparr>)"

inductive run :: "signal_config \<Rightarrow> signal_thread \<Rightarrow> label list \<Rightarrow> signal_thread \<Rightarrow> bool"
  for c :: signal_config where
    run_nil: "run c s [] s"
  | run_step: "step c s l s' \<Longrightarrow> run c s' ls s'' \<Longrightarrow> run c s (l # ls) s''"

text \<open>Sample inputs: a Linux-like configuration and an upcall that raises.\<close>

definition linux_config :: signal_config where
  "linux_config = \<lparr>sigexitnum_pd = 65, SIGBREAK = 3, DisableAttachMechanism = False, PrintClassHistogram = False\<rparr>"

definition failing_upcall :: "bool \<Rightarrow> handler_env" where
  "failing_upcall tty = \<lparr>transit_state = AL_INITIALIZED, is_init_trigger = False, check_socket_file = False,
      should_post_data_dump = False, klass_resolved = True, raised = Some ''java.lang.Error'',
      tty_present = tty\<rparr>"

section \<open>Native heap allocator facade: \<open>os::malloc\<close>, \<open>os::realloc\<close>, \<open>os::free\<close>\<close>

text \<open>
  Pointers are addresses, \<open>0\<close> for \<open>nullptr\<close>. Pointer arithmetic of the tracker stays
  inside one allocated block, so addresses are natural numbers; sizes are \<open>size_t\<close>
  words, where the overflow of C3 happens. \<open>MEMFLAGS\<close> is the category enumeration
  (\<open>allocation.hpp\<close>), by its numeric value.
\<close>

type_synonym address = nat
type_synonym MEMFLAGS = nat

text \<open>
  Modelled from the spec: the allocation record ("address, requested size,
  flags/category") that the ledger keeps in a header in front of the block
  (\<open>mallocHeader.hpp\<close>), with its dead-mark ("in-place tagging of an allocation record
  as invalid").
\<close>

record MallocHeader =
  hdr_size :: size_t
  hdr_flags :: MEMFLAGS
  hdr_alive :: bool

text \<open>
  The state the facade works on: the live blocks of the platform allocator (address and
  byte size), the headers written by the ledger (by the address of the header, which is
  the address of the platform block), and the ledger's accounting per category.
  The contents of the blocks are not modelled (the \<open>memset\<close> calls of \<open>os::malloc\<close>
  and \<open>os::realloc\<close> only write contents).
\<close>

record vm_state =
  c_heap :: "address \<rightharpoonup> size_t"
  headers :: "address \<rightharpoonup> MallocHeader"
  malloc_bytes :: "MEMFLAGS \<Rightarrow> nat"
  malloc_count :: "MEMFLAGS \<Rightarrow> nat"

text \<open>
  Modelled from the spec: the configuration of the ledger: "a flag enabling/disabling
  memory tracking altogether" (\<open>MemTracker::enabled()\<close>), the sizes of the header and
  footer it adds to a block, and "a global allocation ceiling per category". With it
  the kind of build: \<open>assert_build\<close> holds in a debug build (\<open>ASSERT\<close> defined), where
  the \<open>assert\<close> of \<open>os::realloc\<close> is compiled in; a product build has no such test.
\<close>

record nmt_config =
  nmt_enabled :: bool
  assert_build :: bool
  sizeof_MallocHeader :: size_t
  sizeof_footer :: size_t
  malloc_limit :: "MEMFLAGS \<Rightarrow> size_t option"

text \<open>
  What the facade calls and \<open>os.cpp\<close> does not define: the platform's \<open>::malloc\<close> and
  \<open>::realloc\<close> (the address they return, \<open>0\<close> on failure; they see the state they are
  called in), and the handlers of the pre-initialization phase
  (\<open>NMTPreInit::handle_malloc\<close>, \<open>handle_realloc\<close>, \<open>handle_free\<close>): \<open>Some\<close> when the
  handler took the call over, with what it returned.
\<close>

record environment =
  sys_malloc :: "vm_state \<Rightarrow> size_t \<Rightarrow> address"
  sys_realloc :: "vm_state \<Rightarrow> address \<Rightarrow> size_t \<Rightarrow> address"
  handle_malloc :: "vm_state \<Rightarrow> size_t \<Rightarrow> (address \<times> vm_state) option"
  handle_realloc :: "vm_state \<Rightarrow> address \<Rightarrow> size_t \<Rightarrow> MEMFLAGS \<Rightarrow> (address \<times> vm_state) option"
  handle_free :: "vm_state \<Rightarrow> address \<Rightarrow> vm_state option"

text \<open>
  Detected corruption ends the process (assertion or abort): the operations return it as
  an error. \<open>FlagsMismatch\<close> is the \<open>assert\<close> of \<open>os::realloc\<close>.
\<close>

datatype fatal_error = NotAMallocBlock | BlockIsDead | FlagsMismatch | InvalidFree

text \<open>
  Modelled from the spec: \<open>MemTracker::overhead_per_malloc()\<close>, the "tracking
  overhead"; "when disabled (tracking off), all operations degrade to pure pass-through
  with zero overhead".
\<close>

definition overhead_per_malloc :: "nmt_config \<Rightarrow> size_t" where
  "overhead_per_malloc cfg = (if nmt_enabled cfg then sizeof_MallocHeader cfg + sizeof_footer cfg else 0)"

text \<open>
  Modelled from the spec: \<open>MemTracker::check_exceeds_limit(size, flags)\<close> "enforces a
  configurable global ceiling per category, rejecting the request (not aborting) when
  exceeded".
\<close>

definition check_exceeds_limit :: "nmt_config \<Rightarrow> vm_state \<Rightarrow> size_t \<Rightarrow> MEMFLAGS \<Rightarrow> bool" where
  "check_exceeds_limit cfg st s f =
     (nmt_enabled cfg \<and>
      (case malloc_limit cfg f of None \<Rightarrow> False | Some l \<Rightarrow> malloc_bytes st f + unat s > unat l))"

text \<open>
  Modelled from the spec: the accounting of the ledger, and \<open>MemTracker::deaccount\<close> of
  the \<open>FreeInfo\<close> (size and flags) of a block.
\<close>

definition account :: "size_t \<Rightarrow> MEMFLAGS \<Rightarrow> vm_state \<Rightarrow> vm_state" where
  "account s f st = st\<lparr>malloc_bytes := (malloc_bytes st)(f := malloc_bytes st f + unat s),
                        malloc_count := (malloc_count st)(f := malloc_count st f + 1)\<rparr>"

definition deaccount :: "size_t \<times> MEMFLAGS \<Rightarrow> vm_state \<Rightarrow> vm_state" where
  "deaccount free_info st =
     (let s = fst free_info; f = snd free_info in
      st\<lparr>malloc_bytes := (malloc_bytes st)(f := malloc_bytes st f - unat s),
         malloc_count := (malloc_count st)(f := malloc_count st f - 1)\<rparr>)"

text \<open>
  Modelled from the spec: \<open>MemTracker::record_malloc(outer_ptr, size, flags, stack)\<close>
  "associates metadata with a memory block and returns the pointer callers may use".
\<close>

definition record_malloc :: "nmt_config \<Rightarrow> vm_state \<Rightarrow> address \<Rightarrow> size_t \<Rightarrow> MEMFLAGS \<Rightarrow> address \<times> vm_state" where
  "record_malloc cfg st outer_ptr size' flags =
     (if nmt_enabled cfg then
        (outer_ptr + unat (sizeof_MallocHeader cfg),
         account size' flags
           (st\<lparr>headers := (headers st)(outer_ptr \<mapsto> \<lparr>hdr_size = size', hdr_flags = flags, hdr_alive = True\<rparr>)\<rparr>))
      else (outer_ptr, st))"

text \<open>
  Modelled from the spec: \<open>MallocTracker::malloc_header(memblock)\<close>, the header in front
  of a user pointer (its address and contents), if there is one.
\<close>

definition malloc_header :: "nmt_config \<Rightarrow> vm_state \<Rightarrow> address \<Rightarrow> (address \<times> MallocHeader) option" where
  "malloc_header cfg st memblock =
     (if memblock < unat (sizeof_MallocHeader cfg) then None
      else map_option (Pair (memblock - unat (sizeof_MallocHeader cfg)))
             (headers st (memblock - unat (sizeof_MallocHeader cfg))))"

text \<open>
  Modelled from the spec: \<open>MallocHeader::mark_block_as_dead()\<close> and
  \<open>MallocHeader::revive()\<close>: the dead-mark and its rollback.
\<close>

definition mark_block_as_dead :: "address \<Rightarrow> vm_state \<Rightarrow> vm_state" where
  "mark_block_as_dead header st =
     st\<lparr>headers := (case headers st header of
                       None \<Rightarrow> headers st
                     | Some h \<Rightarrow> (headers st)(header \<mapsto> h\<lparr>hdr_alive := False\<rparr>))\<rparr>"

definition revive :: "address \<Rightarrow> vm_state \<Rightarrow> vm_state" where
  "revive header st =
     st\<lparr>headers := (case headers st header of
                       None \<Rightarrow> headers st
                     | Some h \<Rightarrow> (headers st)(header \<mapsto> h\<lparr>hdr_alive := True\<rparr>))\<rparr>"

text \<open>
  Modelled from the spec: \<open>MemTracker::record_free(ptr)\<close> "validates and removes the
  record, returning the original allocation for release"; a block that is not tracked
  or already dead is detected.
\<close>

definition record_free :: "nmt_config \<Rightarrow> vm_state \<Rightarrow> address \<Rightarrow> fatal_error + address \<times> vm_state" where
  "record_free cfg st memblock =
     (if nmt_enabled cfg then
        case malloc_header cfg st memblock of
          None \<Rightarrow> Inl NotAMallocBlock
        | Some (header, h) \<Rightarrow>
            if \<not> hdr_alive h then Inl BlockIsDead
            else Inr (header, mark_block_as_dead header (deaccount (hdr_size h, hdr_flags h) st))
      else Inr (memblock, st))"

text \<open>
  \<open>os::malloc(size, memflags, stack)\<close>. (\<open>size\<close> is written \<open>size'\<close>: the name is
  taken in HOL.)
\<close>

definition os_malloc :: "environment \<Rightarrow> nmt_config \<Rightarrow> vm_state \<Rightarrow> size_t \<Rightarrow> MEMFLAGS \<Rightarrow> address \<times> vm_state" where
  "os_malloc env cfg st size' memflags =
     (case handle_malloc env st size' of
        Some rc \<Rightarrow> rc
      | None \<Rightarrow>
          let size' = max 1 size' in
          if check_exceeds_limit cfg st size' memflags then (0, st)
          else
            let outer_size = size' + overhead_per_malloc cfg in
            if outer_size < size' then (0, st)
            else
              let outer_ptr = sys_malloc env st outer_size in
              if outer_ptr = 0 then (0, st)
              else record_malloc cfg (st\<lparr>c_heap := (c_heap st)(outer_ptr \<mapsto> outer_size)\<rparr>)
                     outer_ptr size' memflags)"

text \<open>
  What \<open>os::realloc\<close> does to the old block, in program order: the calls of
  \<open>header->mark_block_as_dead()\<close>, of the platform's \<open>::realloc\<close> (with its arguments),
  of \<open>header->revive()\<close>, of \<open>MemTracker::deaccount\<close> and of
  \<open>MemTracker::record_malloc\<close>.
\<close>

datatype realloc_op =
    MarkBlockAsDead address
  | SysRealloc address size_t
  | Revive address
  | Deaccount "size_t \<times> MEMFLAGS"
  | RecordMalloc address size_t MEMFLAGS

text \<open>
  \<open>os::realloc(memblock, size, memflags, stack)\<close>: what it returns, with the state it
  leaves, and the operations above as it performs them. The \<open>assert\<close> on the flags is a
  fatal error in a debug build only; a product build goes on and books the block under
  the new flags.
\<close>

definition os_realloc_traced ::
  "environment \<Rightarrow> nmt_config \<Rightarrow> vm_state \<Rightarrow> address \<Rightarrow> size_t \<Rightarrow> MEMFLAGS \<Rightarrow>
     (fatal_error + address \<times> vm_state) \<times> realloc_op list" where
  "os_realloc_traced env cfg st memblock size' memflags =
     (case handle_realloc env st memblock size' memflags of
        Some rc \<Rightarrow> (Inr rc, [])
      | None \<Rightarrow>
          if memblock = 0 then (Inr (os_malloc env cfg st size' memflags), [])
          else
            let size' = max 1 size' in
            if nmt_enabled cfg then
              let new_outer_size = size' + overhead_per_malloc cfg in
              if new_outer_size < size' then (Inr (0, st), [])
              else
                case malloc_header cfg st memblock of
                  None \<Rightarrow> (Inl NotAMallocBlock, [])
                | Some (header, h) \<Rightarrow>
                    let old_size = hdr_size h in
                    if size' > old_size \<and> check_exceeds_limit cfg st (size' - old_size) memflags
                    then (Inr (0, st), [])
                    else if \<not> hdr_alive h then (Inl BlockIsDead, [])
                    else if assert_build cfg \<and> memflags \<noteq> hdr_flags h then (Inl FlagsMismatch, [])
                    else
                      let free_info = (hdr_size h, hdr_flags h);
                          st = mark_block_as_dead header st;
                          ops = [MarkBlockAsDead header];
                          new_outer_ptr = sys_realloc env st header new_outer_size;
                          ops = ops @ [SysRealloc header new_outer_size]
                      in
                        if new_outer_ptr = 0
                        then (Inr (0, revive header st), ops @ [Revive header])
                        else
                          let st = st\<lparr>c_heap := ((c_heap st)(header := None))(new_outer_ptr \<mapsto> new_outer_size),
                                      headers := (headers st)(header := None)\<rparr>;
                              st = deaccount free_info st;
                              ops = ops @ [Deaccount free_info]
                          in (Inr (record_malloc cfg st new_outer_ptr size' memflags),
                              ops @ [RecordMalloc new_outer_ptr size' memflags])
            else
              let rc = sys_realloc env st memblock size';
                  ops = [SysRealloc memblock size']
              in
                if rc = 0 then (Inr (0, st), ops)
                else (Inr (rc, st\<lparr>c_heap := ((c_heap st)(memblock := None))(rc \<mapsto> size')\<rparr>), ops))"

text \<open>\<open>os::realloc\<close> without the list of operations: the result and the state.\<close>

definition os_realloc ::
  "environment \<Rightarrow> nmt_config \<Rightarrow> vm_state \<Rightarrow> address \<Rightarrow> size_t \<Rightarrow> MEMFLAGS \<Rightarrow> fatal_error + address \<times> vm_state" where
  "os_realloc env cfg st memblock size' memflags = fst (os_realloc_traced env cfg st memblock size' memflags)"

text \<open>
  The two tests of \<open>os::realloc\<close> (tracking on) that return null before the platform
  is asked: the overflow of the new outer size, and the limit for a growing block.
\<close>

definition realloc_refused_early :: "nmt_config \<Rightarrow> vm_state \<Rightarrow> address \<Rightarrow> size_t \<Rightarrow> MEMFLAGS \<Rightarrow> bool" where
  "realloc_refused_early cfg st memblock size' memflags =
     (let size' = max 1 size' in
      size' + overhead_per_malloc cfg < size'
      \<or> (case malloc_header cfg st memblock of
            None \<Rightarrow> False
          | Some (header, h) \<Rightarrow>
              size' > hdr_size h \<and> check_exceeds_limit cfg st (size' - hdr_size h) memflags))"

text \<open>
  \<open>os::free(memblock)\<close>. Releasing an address that is not a live block of the platform
  allocator is undefined in C; the model reports it.
\<close>

definition os_free :: "environment \<Rightarrow> nmt_config \<Rightarrow> vm_state \<Rightarrow> address \<Rightarrow> fatal_error + vm_state" where
  "os_free env cfg st memblock =
     (case handle_free env st memblock of
        Some st' \<Rightarrow> Inr st'
      | None \<Rightarrow>
          if memblock = 0 then Inr st
          else
            case record_free cfg st memblock of
              Inl e \<Rightarrow> Inl e
            | Inr (old_outer_ptr, st) \<Rightarrow>
                if old_outer_ptr \<notin> dom (c_heap st) then Inl InvalidFree
                else Inr (st\<lparr>c_heap := (c_heap st)(old_outer_ptr := None)\<rparr>))"


text \<open>
  A pointer is a live block of category \<open>f\<close>: it is not null, and its record is alive,
  carries \<open>f\<close> and sits on a live platform block (without tracking: it is a live
  platform block).
\<close>

definition live_block :: "nmt_config \<Rightarrow> vm_state \<Rightarrow> address \<Rightarrow> MEMFLAGS \<Rightarrow> bool" where
  "live_block cfg st p f =
     (p \<noteq> 0 \<and>
      (if nmt_enabled cfg then
         case malloc_header cfg st p of
           None \<Rightarrow> False
         | Some (header, h) \<Rightarrow> hdr_alive h \<and> hdr_flags h = f \<and> c_heap st header \<noteq> None
       else c_heap st p \<noteq> None))"

text \<open>
  Sample inputs: tracking on with an 18-byte overhead, an empty heap, a platform that
  serves one block at \<open>0x1000\<close> and nothing else, and the state after
  \<open>os::malloc(100, 7)\<close> on it.
\<close>

definition sample_config :: nmt_config where
  "sample_config = \<lparr>nmt_enabled = True, assert_build = True, sizeof_MallocHeader = 16, sizeof_footer = 2, malloc_limit = (\<lambda>f. None)\<rparr>"

definition empty_state :: vm_state where
  "empty_state = \<lparr>c_heap = Map.empty, headers = Map.empty, malloc_bytes = (\<lambda>f. 0), malloc_count = (\<lambda>f. 0)\<rparr>"

definition exhausted_after_first :: environment where
  "exhausted_after_first =
     \<lparr>sys_malloc = (\<lambda>st n. if c_heap st = Map.empty then 0x1000 else 0),
      sys_realloc = (\<lambda>st p n. 0),
      handle_malloc = (\<lambda>st n. None),
      handle_realloc = (\<lambda>st p n f. None),
      handle_free = (\<lambda>st p. None)\<rparr>"

text \<open>
  A platform whose \<open>::realloc\<close> fails exactly when the header at the block it is given
  is marked dead, and moves the block to \<open>0x2000\<close> otherwise.
\<close>

definition fails_on_dead_header :: environment where
  "fails_on_dead_header =
     \<lparr>sys_malloc = (\<lambda>st n. if c_heap st = Map.empty then 0x1000 else 0),
      sys_realloc = (\<lambda>st p n. case headers st p of
                                 None \<Rightarrow> 0x2000
                               | Some h \<Rightarrow> if hdr_alive h then 0x2000 else 0),
      handle_malloc = (\<lambda>st n. None),
      handle_realloc = (\<lambda>st p n f. None),
      handle_free = (\<lambda>st p. None)\<rparr>"

definition one_block :: vm_state where
  "one_block = \<lparr>c_heap = [0x1000 \<mapsto> 118],
               headers = [0x1000 \<mapsto> \<lparr>hdr_size = 100, hdr_flags = 7, hdr_alive = True\<rparr>],
               malloc_bytes = (\<lambda>f. 0)(7 := 100), malloc_count = (\<lambda>f. 0)(7 := 1)\<rparr>"


section \<open>Properties of \<open>os::get_priority\<close>\<close>

lemma scan_ascending_range:
  "MinPriority t \<le> p \<Longrightarrow> MinPriority t \<le> scan_ascending t os_prio p \<and> scan_ascending t os_prio p \<le> p"
proof (induction t os_prio p rule: scan_ascending.induct)
  case (1 t os_prio p)
  show ?case
  proof (cases "p > MinPriority t \<and> java_to_os_priority t p > os_prio")
    case True
    then have "MinPriority t \<le> p - 1" by simp
    with "1.IH" True have "MinPriority t \<le> scan_ascending t os_prio (p - 1)
        \<and> scan_ascending t os_prio (p - 1) \<le> p - 1"
      by blast
    moreover have "scan_ascending t os_prio p = scan_ascending t os_prio (p - 1)"
      using True by (subst scan_ascending.simps) simp
    ultimately show ?thesis by simp
  next
    case False
    then have "scan_ascending t os_prio p = p"
      by (subst scan_ascending.simps) auto
    with "1.prems" show ?thesis by simp
  qed
qed

lemma scan_reversed_range:
  "MinPriority t \<le> p \<Longrightarrow> MinPriority t \<le> scan_reversed t os_prio p \<and> scan_reversed t os_prio p \<le> p"
proof (induction t os_prio p rule: scan_reversed.induct)
  case (1 t os_prio p)
  show ?case
  proof (cases "p > MinPriority t \<and> java_to_os_priority t p < os_prio")
    case True
    then have "MinPriority t \<le> p - 1" by simp
    with "1.IH" True have "MinPriority t \<le> scan_reversed t os_prio (p - 1)
        \<and> scan_reversed t os_prio (p - 1) \<le> p - 1"
      by blast
    moreover have "scan_reversed t os_prio p = scan_reversed t os_prio (p - 1)"
      using True by (subst scan_reversed.simps) simp
    ultimately show ?thesis by simp
  next
    case False
    then have "scan_reversed t os_prio p = p"
      by (subst scan_reversed.simps) auto
    with "1.prems" show ?thesis by simp
  qed
qed

text \<open>
  C10. Whenever the native priority query succeeds, \<open>os::get_priority\<close> returns
  \<open>OS_OK\<close> and the priority it stores lies within \<open>[MinPriority, MaxPriority]\<close>, for
  every native priority value and every table, ascending or reversed. The only
  requirement is that the enumeration is not empty (\<open>MinPriority \<le> MaxPriority\<close>).
\<close>

theorem get_priority_in_range:
  assumes "MinPriority t \<le> MaxPriority t"
  shows "fst (get_priority t (OS_OK, os_prio) old) = OS_OK
       \<and> MinPriority t \<le> snd (get_priority t (OS_OK, os_prio) old)
       \<and> snd (get_priority t (OS_OK, os_prio) old) \<le> MaxPriority t"
  using scan_ascending_range [OF assms, of os_prio] scan_reversed_range [OF assms, of os_prio]
  by (simp add: get_priority_def Let_def)

text \<open>
  The witness: the niceness-style table of a Unix platform (priority 1 is nice 4,
  priority 10 is nice -5) and a thread at nice 0.
\<close>

theorem get_priority_in_range_witness:
  "fst (get_priority \<lparr>MinPriority = 1, MaxPriority = 10, java_to_os_priority = (\<lambda>p. 5 - p)\<rparr> (OS_OK, 0) 0) = OS_OK
   \<and> 1 \<le> snd (get_priority \<lparr>MinPriority = 1, MaxPriority = 10, java_to_os_priority = (\<lambda>p. 5 - p)\<rparr> (OS_OK, 0) 0)
   \<and> snd (get_priority \<lparr>MinPriority = 1, MaxPriority = 10, java_to_os_priority = (\<lambda>p. 5 - p)\<rparr> (OS_OK, 0) 0) \<le> 10"
  using get_priority_in_range [of "\<lparr>MinPriority = 1, MaxPriority = 10, java_to_os_priority = (\<lambda>p. 5 - p)\<rparr>" 0 0]
  by simp

section \<open>Properties of \<open>os::is_readable_pointer\<close>\<close>

lemma and_not_mask_diff: "(p :: 'a::len word) AND NOT (mask n) = p - (p AND mask n)"
proof -
  have "p - (p AND mask n) = p AND NOT (p AND mask n)"
    by (rule disjunctive_diff) (simp add: bit_and_iff)
  also have "\<dots> = p AND NOT (mask n)"
    by (rule bit_word_eqI) (auto simp: bit_and_iff bit_not_iff bit_or_iff)
  finally show ?thesis by simp
qed

lemma unat_and_mask_mod: "unat ((p :: 'a::len word) AND mask n) = unat p mod 2 ^ n"
proof -
  have "p AND mask n = take_bit n p" by (simp add: take_bit_eq_mask)
  then have "unat (p AND mask n) = take_bit n (unat p)"
    by (simp only: unsigned_take_bit_eq)
  also have "\<dots> = unat p mod 2 ^ n" by (simp add: take_bit_eq_mod)
  finally show ?thesis .
qed

lemma align_down_4: "unat (align_down p 4) = unat p - unat p mod 4"
proof -
  have m: "(3 :: uintptr_t) = mask 2" by (simp add: mask_eq_exp_minus_1)
  have "align_down p 4 = p AND NOT (mask 2)" by (simp add: align_down_def m)
  also have "\<dots> = p - (p AND mask 2)" by (rule and_not_mask_diff)
  finally have "align_down p 4 = p - (p AND mask 2)" .
  moreover have "p AND mask 2 \<le> p" by (rule word_and_le2)
  ultimately have "unat (align_down p 4) = unat p - unat (p AND mask 2)"
    by (simp add: unat_sub)
  then show ?thesis by (simp add: unat_and_mask_mod)
qed

text \<open>
  C7. With the fault-tolerant fetch returning the stored value at a readable address and
  the caller's sentinel elsewhere, \<open>os::is_readable_pointer p\<close> probes \<open>p\<close> aligned
  down to a multiple of 4 and is true exactly when that address is readable, whatever
  value is stored there (also \<open>0xcafebabe\<close> or \<open>0xdeadbeef\<close>).
\<close>

theorem is_readable_pointer_iff:
  "is_readable_pointer mem p = (mem (align_down p 4) \<noteq> None)
   \<and> unat (align_down p 4) = unat p - unat p mod 4"
proof -
  have "is_readable_pointer mem p = (mem (align_down p 4) \<noteq> None)"
    by (cases "mem (align_down p 4)") (auto simp: is_readable_pointer_def SafeFetch32_def Let_def)
  then show ?thesis by (simp add: align_down_4)
qed

theorem is_readable_pointer_iff_witness:
  "is_readable_pointer [0x1000 \<mapsto> 0xcafebabe] 0x1003 = ([0x1000 \<mapsto> 0xcafebabe] (align_down 0x1003 4) \<noteq> None)
   \<and> is_readable_pointer [0x1000 \<mapsto> 0xcafebabe] 0x1003
   \<and> \<not> is_readable_pointer [0x1000 \<mapsto> 0xcafebabe] 0x1004"
  using is_readable_pointer_iff [of "[0x1000 \<mapsto> 0xcafebabe]" "0x1003"]
  by (simp add: is_readable_pointer_def SafeFetch32_def align_down_def)

section \<open>Properties of \<open>os::PageSizes\<close>\<close>

lemma ctz_bit: "0 < n \<Longrightarrow> bit n (count_trailing_zeros_nat n) \<and> (\<forall>i. bit n i \<longrightarrow> count_trailing_zeros_nat n \<le> i)"
proof (induction n rule: count_trailing_zeros_nat.induct)
  case (1 n)
  show ?case
  proof (cases "odd n")
    case True
    then have "count_trailing_zeros_nat n = 0" by (subst count_trailing_zeros_nat.simps) simp
    with True show ?thesis by (simp add: bit_0)
  next
    case False
    with "1.prems" have pos: "0 < n div 2" by (cases "n = 1") auto
    from "1.IH" False "1.prems" pos have IH: "bit (n div 2) (count_trailing_zeros_nat (n div 2))"
      "\<And>i. bit (n div 2) i \<Longrightarrow> count_trailing_zeros_nat (n div 2) \<le> i" by auto
    have eq: "count_trailing_zeros_nat n = Suc (count_trailing_zeros_nat (n div 2))"
      using False "1.prems" by (subst count_trailing_zeros_nat.simps) simp
    have "bit n (count_trailing_zeros_nat n)" using IH(1) by (simp add: eq bit_Suc)
    moreover have "count_trailing_zeros_nat n \<le> i" if "bit n i" for i
    proof (cases i)
      case 0 with that False show ?thesis by (simp add: bit_0)
    next
      case (Suc j)
      with that have "bit (n div 2) j" by (simp add: bit_Suc)
      then show ?thesis using IH(2) Suc eq by simp
    qed
    ultimately show ?thesis by blast
  qed
qed

lemma p2_le_iff: "i < 64 \<Longrightarrow> k < 64 \<Longrightarrow> ((2::size_t) ^ i \<le> 2 ^ k) = (i \<le> k)"
  by (simp add: word_le_nat_alt unat_p2)

lemma p2_less_iff: "i < 64 \<Longrightarrow> k < 64 \<Longrightarrow> ((2::size_t) ^ i < 2 ^ k) = (i < k)"
  by (simp add: word_less_nat_alt unat_p2)

lemma p2_eq_iff: "i < 64 \<Longrightarrow> k < 64 \<Longrightarrow> ((2::size_t) ^ i = 2 ^ k) = (i = k)"
  using p2_le_iff [of i k] p2_le_iff [of k i] by auto

lemma next_smaller_cases:
  assumes k: "k < 64"
  shows "(next_smaller v (2 ^ k) = 0 \<and> (\<forall>i<k. \<not> bit v i))
       \<or> (\<exists>j<k. next_smaller v (2 ^ k) = 2 ^ j \<and> bit v j \<and> (\<forall>i<k. bit v i \<longrightarrow> i \<le> j))"
proof -
  define v2 where "v2 = v AND (2 ^ k - 1)"
  have v2: "v2 = v AND mask k" by (simp add: v2_def mask_eq_exp_minus_1)
  have bits: "bit v2 i = (bit v i \<and> i < k)" for i
    using k by (auto simp: v2 bit_and_iff bit_mask_iff dest: bit_imp_le_length)
  show ?thesis
  proof (cases "v2 = 0")
    case True
    then have "next_smaller v (2 ^ k) = 0" by (simp add: next_smaller_def v2_def)
    moreover have "\<not> bit v i" if "i < k" for i
      using bits [of i] that True by simp
    ultimately show ?thesis by blast
  next
    case False
    define j where "j = log2i (unat v2)"
    from False have pos: "0 < unat v2" by (rule word_pos_unat)
    from log2i_bit [OF pos] have hj: "bit v2 j" and top: "\<And>i. bit v2 i \<Longrightarrow> i \<le> j"
      by (simp_all add: j_def bit_unat_word)
    from hj bits have "j < k" "bit v j" by simp_all
    moreover have "next_smaller v (2 ^ k) = 2 ^ j"
      using False by (simp add: next_smaller_def round_down_power_of_2_def push_bit_of_1 j_def flip: v2_def)
    moreover have "i \<le> j" if "i < k" "bit v i" for i
      using top [of i] bits [of i] that by simp
    ultimately show ?thesis by blast
  qed
qed

lemma mask_Suc_plus: "(2::size_t) ^ k + (2 ^ k - 1) = mask (Suc k)"
  by (simp add: mask_eq_exp_minus_1)

lemma next_larger_cases:
  assumes k: "k < 64"
  shows "(next_larger v (2 ^ k) = 0 \<and> (\<forall>i<64. k < i \<longrightarrow> \<not> bit v i))
       \<or> (\<exists>j<64. k < j \<and> next_larger v (2 ^ k) = 2 ^ j \<and> bit v j \<and> (\<forall>i. k < i \<and> bit v i \<longrightarrow> j \<le> i))"
proof (cases "(2::size_t) ^ k = max_power_of_2")
  case True
  moreover have "max_power_of_2 = 2 ^ 63" by (simp add: max_power_of_2_def)
  ultimately have "k = 63" using k p2_eq_iff [of k 63] by simp
  moreover have "next_larger v (2 ^ k) = 0" using True by (simp add: next_larger_def)
  ultimately show ?thesis by simp
next
  case False
  define v2 where "v2 = v AND NOT (2 ^ k + (2 ^ k - 1))"
  have v2: "v2 = v AND NOT (mask (Suc k))" by (simp only: v2_def mask_Suc_plus)
  have unfold: "next_larger v (2 ^ k) = (if v2 = 0 then 0 else push_bit (count_trailing_zeros v2) 1)"
    by (simp only: next_larger_def v2_def Let_def False if_False)
  have bits: "bit v2 i = (bit v i \<and> k < i)" for i
    by (auto simp: v2 bit_and_iff bit_not_iff bit_mask_iff dest: bit_imp_le_length)
  show ?thesis
  proof (cases "v2 = 0")
    case True
    then have "next_larger v (2 ^ k) = 0" by (simp add: unfold)
    moreover have "\<not> bit v i" if "k < i" for i
      using bits [of i] that True by simp
    ultimately show ?thesis by blast
  next
    case nz: False
    define j where "j = count_trailing_zeros v2"
    from nz have pos: "0 < unat v2" by (rule word_pos_unat)
    from ctz_bit [OF pos] have hj: "bit v2 j" and low: "\<And>i. bit v2 i \<Longrightarrow> j \<le> i"
      by (simp_all add: j_def count_trailing_zeros_def bit_unat_word)
    from hj bits have "k < j" "bit v j" by simp_all
    moreover from hj have "j < 64" by (auto dest: bit_imp_le_length)
    moreover have "next_larger v (2 ^ k) = 2 ^ j"
      using nz by (simp add: unfold j_def)
    moreover have "j \<le> i" if "k < i" "bit v i" for i
      using low [of i] bits [of i] that by simp
    ultimately show ?thesis by blast
  qed
qed

lemma finite_page_sizes [simp]: "finite (page_sizes_of v)"
  by (simp add: page_sizes_of_def)

lemma page_sizes_ofI: "k < 64 \<Longrightarrow> bit v k \<Longrightarrow> 2 ^ k \<in> page_sizes_of v"
  by (auto simp: page_sizes_of_def)

lemma page_sizes_ofE:
  assumes "x \<in> page_sizes_of v"
  obtains i where "i < 64" "bit v i" "x = 2 ^ i"
  using assms by (auto simp: page_sizes_of_def)

lemma next_smaller_Max:
  assumes k: "k < 64"
  shows "next_smaller v (2 ^ k) =
     (if {x \<in> page_sizes_of v. x < 2 ^ k} = {} then 0 else Max {x \<in> page_sizes_of v. x < 2 ^ k})"
proof -
  let ?S = "{x \<in> page_sizes_of v. x < 2 ^ k}"
  from next_smaller_cases [OF k, of v] show ?thesis
  proof (elim disjE conjE exE)
    assume z: "next_smaller v (2 ^ k) = 0" and none: "\<forall>i<k. \<not> bit v i"
    have "?S = {}"
    proof (rule ccontr)
      assume "?S \<noteq> {}"
      then obtain x where "x \<in> page_sizes_of v" "x < 2 ^ k" by blast
      then obtain i where "i < 64" "bit v i" "(2::size_t) ^ i < 2 ^ k" by (auto elim: page_sizes_ofE)
      with k none show False by (simp add: p2_less_iff)
    qed
    with z show ?thesis by simp
  next
    fix j assume j: "j < k" and r: "next_smaller v (2 ^ k) = 2 ^ j" and b: "bit v j"
      and top: "\<forall>i<k. bit v i \<longrightarrow> i \<le> j"
    from j k have j64: "j < 64" by simp
    have mem: "2 ^ j \<in> ?S" using j k j64 b by (simp add: page_sizes_ofI p2_less_iff)
    have ub: "x \<le> 2 ^ j" if "x \<in> ?S" for x
    proof -
      from that obtain i where i: "i < 64" "bit v i" "x = 2 ^ i" "(2::size_t) ^ i < 2 ^ k"
        by (auto elim: page_sizes_ofE)
      with k have "i < k" by (simp add: p2_less_iff)
      with top i have "i \<le> j" by simp
      with i j64 show ?thesis by (simp add: p2_le_iff)
    qed
    have "Max ?S = 2 ^ j" by (rule Max_eqI) (use mem ub in auto)
    with mem r show ?thesis by auto
  qed
qed

lemma next_larger_Min:
  assumes k: "k < 64"
  shows "next_larger v (2 ^ k) =
     (if {x \<in> page_sizes_of v. 2 ^ k < x} = {} then 0 else Min {x \<in> page_sizes_of v. 2 ^ k < x})"
proof -
  let ?S = "{x \<in> page_sizes_of v. 2 ^ k < x}"
  from next_larger_cases [OF k, of v] show ?thesis
  proof (elim disjE conjE exE)
    assume z: "next_larger v (2 ^ k) = 0" and none: "\<forall>i<64. k < i \<longrightarrow> \<not> bit v i"
    have "?S = {}"
    proof (rule ccontr)
      assume "?S \<noteq> {}"
      then obtain x where "x \<in> page_sizes_of v" "2 ^ k < x" by blast
      then obtain i where "i < 64" "bit v i" "(2::size_t) ^ k < 2 ^ i" by (auto elim: page_sizes_ofE)
      with k none show False by (simp add: p2_less_iff)
    qed
    with z show ?thesis by simp
  next
    fix j assume j64: "j < 64" and j: "k < j" and r: "next_larger v (2 ^ k) = 2 ^ j" and b: "bit v j"
      and low: "\<forall>i. k < i \<and> bit v i \<longrightarrow> j \<le> i"
    have mem: "2 ^ j \<in> ?S" using j k j64 b by (simp add: page_sizes_ofI p2_less_iff)
    have lb: "2 ^ j \<le> x" if "x \<in> ?S" for x
    proof -
      from that obtain i where i: "i < 64" "bit v i" "x = 2 ^ i" "(2::size_t) ^ k < 2 ^ i"
        by (auto elim: page_sizes_ofE)
      with k have "k < i" by (simp add: p2_less_iff)
      with low i have "j \<le> i" by simp
      with i j64 show ?thesis by (simp add: p2_le_iff)
    qed
    have "Min ?S = 2 ^ j" by (rule Min_eqI) (use mem lb in auto)
    with mem r show ?thesis by auto
  qed
qed

lemma contains_p2: "k < 64 \<Longrightarrow> contains v (2 ^ k) = bit v k"
proof -
  assume k: "k < 64"
  have "bit (v AND 2 ^ k) n = (bit v k \<and> n = k)" for n
    using k by (auto simp: bit_and_iff bit_exp_iff)
  then have "(v AND 2 ^ k = 0) = (\<not> bit v k)"
    using k by (auto simp: bit_eq_iff)
  then show ?thesis by (simp add: contains_def)
qed

lemma largest_Max: "largest v = (if page_sizes_of v = {} then 0 else Max (page_sizes_of v))"
proof -
  have m: "max_power_of_2 = 2 ^ 63" by (simp add: max_power_of_2_def)
  have all_le: "x \<le> 2 ^ 63" if "x \<in> page_sizes_of v" for x
  proof -
    from that obtain i where i: "i < 64" "bit v i" "x = 2 ^ i" by (rule page_sizes_ofE)
    then show ?thesis by (simp only: p2_le_iff)
  qed
  show ?thesis
  proof (cases "contains v max_power_of_2")
    case True
    then have "bit v 63" using contains_p2 [of 63 v] by (simp add: m)
    then have mem: "(2::size_t) ^ 63 \<in> page_sizes_of v" by (intro page_sizes_ofI) simp_all
    have "Max (page_sizes_of v) = 2 ^ 63" by (rule Max_eqI) (use mem all_le in auto)
    moreover have "largest v = 2 ^ 63" using True by (simp add: largest_def m)
    ultimately show ?thesis using mem by auto
  next
    case False
    then have nb: "\<not> bit v 63" using contains_p2 [of 63 v] by (simp add: m)
    have "{x \<in> page_sizes_of v. x < 2 ^ 63} = page_sizes_of v"
    proof -
      have "x < 2 ^ 63" if "x \<in> page_sizes_of v" for x
      proof -
        from that obtain i where i: "i < 64" "bit v i" "x = 2 ^ i" by (rule page_sizes_ofE)
        with nb have "i \<noteq> 63" by auto
        with i have "i < 63" by simp
        with i show ?thesis using p2_less_iff [of i 63] by simp
      qed
      then show ?thesis by auto
    qed
    moreover have "largest v = next_smaller v (2 ^ 63)" using False by (simp add: largest_def Let_def m)
    ultimately show ?thesis using next_smaller_Max [of 63 v] by simp
  qed
qed

lemma smallest_Min:
  "smallest v = (if {x \<in> page_sizes_of v. 1 < x} = {} then 0 else Min {x \<in> page_sizes_of v. 1 < x})"
proof -
  have "next_larger v (2 ^ 0) =
     (if {x \<in> page_sizes_of v. 2 ^ 0 < x} = {} then 0 else Min {x \<in> page_sizes_of v. 2 ^ 0 < x})"
    by (rule next_larger_Min) simp
  then show ?thesis by (simp only: smallest_def power_0)
qed

lemma PageSizes_examples:
  "next_larger mask_4K_16K_2M 0x1000 = 0x4000"
  "next_smaller mask_4K_16K_2M 0x200000 = 0x4000"
  "largest mask_4K_16K_2M = 0x200000"
  "smallest mask_4K_16K_2M = 0x1000"
  "next_larger mask_4K_16K_2M 0x200000 = 0"
  by (simp_all add: mask_4K_16K_2M_def add_page_size_def next_larger_def next_smaller_def largest_def
        smallest_def contains_def max_power_of_2_def round_down_power_of_2_def log2i.simps
        count_trailing_zeros_def count_trailing_zeros_nat.simps)

text \<open>
  C4. For every power of two \<open>p = 2 ^ k\<close> and every mask: \<open>next_smaller p\<close> is the
  largest page size of the mask strictly below \<open>p\<close> (0 if there is none),
  \<open>next_larger p\<close> is the smallest one strictly above \<open>p\<close> (0 if there is none), and
  \<open>next_larger\<close> of the maximum representable power of two is 0. For the mask
  {4K, 16K, 2M}: \<open>next_larger 4K = 16K\<close>, \<open>next_smaller 2M = 16K\<close>, \<open>largest = 2M\<close>,
  \<open>smallest = 4K\<close> and \<open>next_larger 2M = 0\<close>.
\<close>

theorem PageSizes_next_smaller_next_larger:
  assumes "k < 64"
  shows "next_smaller v (2 ^ k) =
           (if {x \<in> page_sizes_of v. x < 2 ^ k} = {} then 0 else Max {x \<in> page_sizes_of v. x < 2 ^ k})
       \<and> next_larger v (2 ^ k) =
           (if {x \<in> page_sizes_of v. 2 ^ k < x} = {} then 0 else Min {x \<in> page_sizes_of v. 2 ^ k < x})
       \<and> next_larger v max_power_of_2 = 0
       \<and> next_larger mask_4K_16K_2M 0x1000 = 0x4000
       \<and> next_smaller mask_4K_16K_2M 0x200000 = 0x4000
       \<and> largest mask_4K_16K_2M = 0x200000
       \<and> smallest mask_4K_16K_2M = 0x1000
       \<and> next_larger mask_4K_16K_2M 0x200000 = 0"
proof -
  have "next_larger v max_power_of_2 = 0" by (simp add: next_larger_def)
  with next_smaller_Max [OF assms, of v] next_larger_Min [OF assms, of v] PageSizes_examples
  show ?thesis by (intro conjI)
qed

theorem PageSizes_next_smaller_next_larger_witness:
  "next_smaller mask_4K_16K_2M (2 ^ 21) = 0x4000
   \<and> Max {x \<in> page_sizes_of mask_4K_16K_2M. x < 2 ^ 21} = 0x4000
   \<and> next_larger mask_4K_16K_2M (2 ^ 12) = 0x4000
   \<and> Min {x \<in> page_sizes_of mask_4K_16K_2M. 2 ^ 12 < x} = 0x4000"
proof -
  have k: "(21::nat) < 64" "(12::nat) < 64" by simp_all
  have s: "next_smaller mask_4K_16K_2M (2 ^ 21) = 0x4000"
    by (simp add: mask_4K_16K_2M_def add_page_size_def next_smaller_def round_down_power_of_2_def log2i.simps)
  have l: "next_larger mask_4K_16K_2M (2 ^ 12) = 0x4000"
    by (simp add: mask_4K_16K_2M_def add_page_size_def next_larger_def max_power_of_2_def
          count_trailing_zeros_def count_trailing_zeros_nat.simps)
  from PageSizes_next_smaller_next_larger [OF k(1), of mask_4K_16K_2M] s
  have "Max {x \<in> page_sizes_of mask_4K_16K_2M. x < 2 ^ 21} = 0x4000"
    by (auto split: if_splits)
  moreover from PageSizes_next_smaller_next_larger [OF k(2), of mask_4K_16K_2M] l
  have "Min {x \<in> page_sizes_of mask_4K_16K_2M. 2 ^ 12 < x} = 0x4000"
    by (auto split: if_splits)
  ultimately show ?thesis using s l by simp
qed

section \<open>Properties of \<open>os::page_size_for_region\<close>\<close>

lemma registered_below_Suc:
  "registered_below v (Suc n) = (if bit v n then 2 ^ n # registered_below v n else registered_below v n)"
  by (simp add: registered_below_def)

lemma registered_below_skip:
  "n \<le> k \<Longrightarrow> (\<forall>i. n \<le> i \<and> i < k \<longrightarrow> \<not> bit v i) \<Longrightarrow> registered_below v k = registered_below v n"
proof (induction k)
  case 0
  then show ?case by simp
next
  case (Suc k)
  show ?case
  proof (cases "n = Suc k")
    case True
    then show ?thesis by simp
  next
    case False
    with Suc.prems have "n \<le> k" by simp
    moreover from Suc.prems this have "\<not> bit v k" by simp
    moreover from Suc.prems have "\<forall>i. n \<le> i \<and> i < k \<longrightarrow> \<not> bit v i" by simp
    ultimately show ?thesis using Suc.IH by (simp add: registered_below_Suc)
  qed
qed

lemma page_size_walk_zero: "page_size_walk v r m a 0 = None"
  by (simp add: page_size_walk.simps)

lemma page_size_walk_find:
  "k < 64 \<Longrightarrow> bit v k \<Longrightarrow>
   page_size_walk v r m a (2 ^ k) =
     find (\<lambda>p. p \<le> m \<and> (\<not> a \<or> is_aligned r p)) (registered_below v (Suc k))"
proof (induction k rule: less_induct)
  case (less k)
  let ?Q = "\<lambda>p. p \<le> m \<and> (\<not> a \<or> is_aligned r p)"
  have nz: "(2::size_t) ^ k \<noteq> 0" using less.prems p2_eq_iff [of k k] unat_p2 [of k]
    by (metis power_not_zero unat_0 zero_neq_numeral)
  show ?case
  proof (cases "?Q (2 ^ k)")
    case True
    then have "page_size_walk v r m a (2 ^ k) = Some (2 ^ k)"
      using nz by (subst page_size_walk.simps) simp
    with True less.prems show ?thesis by (simp add: registered_below_Suc)
  next
    case False
    then have step: "page_size_walk v r m a (2 ^ k) = page_size_walk v r m a (next_smaller v (2 ^ k))"
      using nz by (subst page_size_walk.simps) auto
    have tail: "find ?Q (registered_below v (Suc k)) = find ?Q (registered_below v k)"
      using False less.prems by (auto simp: registered_below_Suc)
    from next_smaller_cases [OF less.prems(1), of v] show ?thesis
    proof (elim disjE conjE exE)
      assume z: "next_smaller v (2 ^ k) = 0" and none: "\<forall>i<k. \<not> bit v i"
      then have "registered_below v k = registered_below v 0"
        by (intro registered_below_skip) auto
      then have "registered_below v k = []" by (simp add: registered_below_def)
      with step z tail show ?thesis by (simp add: page_size_walk_zero)
    next
      fix j assume j: "j < k" and r: "next_smaller v (2 ^ k) = 2 ^ j" and b: "bit v j"
        and top: "\<forall>i<k. bit v i \<longrightarrow> i \<le> j"
      have "registered_below v k = registered_below v (Suc j)"
        using j top by (intro registered_below_skip) auto
      moreover have "page_size_walk v r m a (2 ^ j) = find ?Q (registered_below v (Suc j))"
        using less.IH [OF j] j less.prems b by simp
      ultimately show ?thesis using step r tail by simp
    qed
  qed
qed

lemma page_size_walk_largest:
  "page_size_walk v r m a (largest v) =
     find (\<lambda>p. p \<le> m \<and> (\<not> a \<or> is_aligned r p)) (registered_descending v)"
proof -
  let ?Q = "\<lambda>p. p \<le> m \<and> (\<not> a \<or> is_aligned r p)"
  have m: "max_power_of_2 = 2 ^ 63" by (simp add: max_power_of_2_def)
  show ?thesis
  proof (cases "contains v max_power_of_2")
    case True
    then have b: "bit v 63" using contains_p2 [of 63 v] by (simp add: m)
    have "largest v = 2 ^ 63" using True by (simp add: largest_def m)
    moreover have "page_size_walk v r m a (2 ^ 63) = find ?Q (registered_below v (Suc 63))"
      using b by (intro page_size_walk_find) simp_all
    ultimately show ?thesis by (simp add: registered_descending_def)
  next
    case False
    then have nb: "\<not> bit v 63" using contains_p2 [of 63 v] by (simp add: m)
    have lg: "largest v = next_smaller v (2 ^ 63)" using False by (simp add: largest_def Let_def m)
    have "(63::nat) < 64" by simp
    from next_smaller_cases [OF this, of v] show ?thesis
    proof (elim disjE conjE exE)
      assume z: "next_smaller v (2 ^ 63) = 0" and none: "\<forall>i<63. \<not> bit v i"
      have "\<not> bit v i" if "i < 64" for i
        using that none nb by (cases "i = 63") auto
      then have "registered_below v 64 = registered_below v 0"
        by (intro registered_below_skip) auto
      then have "registered_descending v = []"
        by (simp add: registered_descending_def registered_below_def)
      with lg z show ?thesis by (simp add: page_size_walk_zero)
    next
      fix j assume j: "j < 63" and r: "next_smaller v (2 ^ 63) = 2 ^ j" and b: "bit v j"
        and top: "\<forall>i<63. bit v i \<longrightarrow> i \<le> j"
      have "\<not> bit v i" if "Suc j \<le> i" "i < 64" for i
      proof (cases "i = 63")
        case True
        with nb show ?thesis by simp
      next
        case False
        with that have "i < 63" "\<not> i \<le> j" by simp_all
        with top show ?thesis by blast
      qed
      then have "registered_below v 64 = registered_below v (Suc j)"
        using j by (intro registered_below_skip) auto
      moreover have "page_size_walk v r m a (2 ^ j) = find ?Q (registered_below v (Suc j))"
        using j b by (intro page_size_walk_find) simp_all
      ultimately show ?thesis using lg r by (simp add: registered_descending_def)
    qed
  qed
qed

lemma is_aligned_p2: "k < 64 \<Longrightarrow> is_aligned r (2 ^ k) = (unat ((2::size_t) ^ k) dvd unat r)"
  by (simp add: is_aligned_def unat_p2 and_mask_dvd_nat mask_eq_exp_minus_1)

lemma set_registered_below: "set (registered_below v n) = (\<lambda>k. 2 ^ k) ` {k. k < n \<and> bit v k}"
  by (auto simp: registered_below_def)

lemma set_registered_descending: "set (registered_descending v) = page_sizes_of v"
  by (simp add: registered_descending_def set_registered_below page_sizes_of_def)

lemma registered_below_sorted:
  "n \<le> 64 \<Longrightarrow> sorted (rev (registered_below v n)) \<and> distinct (registered_below v n)"
proof (induction n)
  case 0
  then show ?case by (simp add: registered_below_def)
next
  case (Suc n)
  then have IH: "sorted (rev (registered_below v n))" "distinct (registered_below v n)" by simp_all
  have less: "x < 2 ^ n" if "x \<in> set (registered_below v n)" for x
  proof -
    from that obtain i where "i < n" "x = 2 ^ i" by (auto simp: set_registered_below)
    with Suc.prems show ?thesis by (simp add: p2_less_iff)
  qed
  then have "\<forall>x \<in> set (registered_below v n). x \<le> 2 ^ n" by (auto intro: less_imp_le)
  moreover have "(2::size_t) ^ n \<notin> set (registered_below v n)" using less by blast
  ultimately show ?case using IH
    by (auto simp: registered_below_Suc sorted_append)
qed

lemma registered_descending_sorted:
  "sorted (rev (registered_descending v)) \<and> distinct (registered_descending v)"
  by (simp add: registered_descending_def registered_below_sorted)

lemma rev_upt_64:
  "rev [0..<64] = [63,62,61,60,59,58,57,56,55,54,53,52,51,50,49,48,47,46,45,44,43,42,41,40,39,38,37,36,35,34,33,32,
      31,30,29,28,27,26,25,24,23,22,21,20,19,18,17,16,15,14,13,12,11,10,9,8,7,6,5,4,3,2,1,0::nat]"
  by (simp add: upt_rec)

text \<open>
  C5, as the code has it. For \<open>min_pages > 0\<close>: when \<open>UseLargePages\<close> is set,
  \<open>os::page_size_for_region\<close> returns the first registered page size, from largest to
  smallest, with \<open>region_size / min_pages \<ge> page_size\<close> and (when \<open>must_be_aligned\<close>)
  \<open>region_size\<close> a multiple of it, and the base page size \<open>vm_page_size\<close> when no
  registered size qualifies; when \<open>UseLargePages\<close> is not set it returns the base page
  size without looking at the registered sizes. (\<open>registered_descending\<close> lists the
  page sizes of the mask in descending order: \<open>set_registered_descending\<close>,
  \<open>registered_descending_sorted\<close>.)
\<close>

theorem page_size_for_region_walk:
  assumes "min_pages \<noteq> 0"
  shows "page_size_for_region c region_size min_pages must_be_aligned =
     (if UseLargePages c then
        case find (qualifies region_size min_pages must_be_aligned) (registered_descending (page_sizes c)) of
          Some page_size \<Rightarrow> page_size
        | None \<Rightarrow> vm_page_size c
      else vm_page_size c)"
proof -
  let ?m = "region_size div min_pages"
  have "(x \<le> ?m \<and> (\<not> must_be_aligned \<or> is_aligned region_size x))
        = qualifies region_size min_pages must_be_aligned x"
    if "x \<in> set (registered_descending (page_sizes c))" for x
  proof -
    from that obtain k where k: "k < 64" "x = 2 ^ k"
      by (auto simp: set_registered_descending elim: page_sizes_ofE)
    then show ?thesis
      by (auto simp: qualifies_def is_aligned_p2 word_le_nat_alt unat_div)
  qed
  then have "find (\<lambda>p. p \<le> ?m \<and> (\<not> must_be_aligned \<or> is_aligned region_size p))
               (registered_descending (page_sizes c))
           = find (qualifies region_size min_pages must_be_aligned) (registered_descending (page_sizes c))"
    by (intro find_cong) simp_all
  then show ?thesis
    by (simp add: page_size_for_region_def Let_def page_size_walk_largest)
qed

theorem page_size_for_region_walk_witness:
  "(4 :: size_t) \<noteq> 0
   \<and> page_size_for_region \<lparr>UseLargePages = True, page_sizes = mask_4K_16K_2M, vm_page_size = 0x1000\<rparr>
        0x200000 4 True = 0x4000
   \<and> (case find (qualifies 0x200000 4 True) (registered_descending mask_4K_16K_2M) of
         Some page_size \<Rightarrow> page_size | None \<Rightarrow> 0x1000) = 0x4000"
proof -
  let ?c = "\<lparr>UseLargePages = True, page_sizes = mask_4K_16K_2M, vm_page_size = 0x1000\<rparr>"
  have nz: "(4 :: size_t) \<noteq> 0" by simp
  have e: "page_size_for_region ?c 0x200000 4 True = 0x4000"
    by (simp add: page_size_for_region_def mask_4K_16K_2M_def add_page_size_def largest_def contains_def
          max_power_of_2_def next_smaller_def round_down_power_of_2_def log2i.simps
          page_size_walk.simps is_aligned_def)
  from page_size_for_region_walk [OF nz, of ?c "0x200000" True] e
  have "(case find (qualifies 0x200000 4 True) (registered_descending mask_4K_16K_2M) of
         Some page_size \<Rightarrow> page_size | None \<Rightarrow> 0x1000) = 0x4000"
    by (simp split: option.splits)
  with nz e show ?thesis by simp
qed

text \<open>
  The claim as the spec states it has no \<open>UseLargePages\<close>: with the flag off and 2M and
  4K registered, a 4M region gets the base page size although 2M is the first
  registered size that qualifies.
\<close>

theorem page_size_for_region_counterexample:
  "page_size_for_region \<lparr>UseLargePages = False, page_sizes = 0x201000, vm_page_size = 0x1000\<rparr>
        0x400000 1 False = 0x1000
   \<and> (case find (qualifies 0x400000 1 False) (registered_descending 0x201000) of
         Some page_size \<Rightarrow> page_size | None \<Rightarrow> 0x1000) = 0x200000"
  by (simp add: page_size_for_region_def registered_descending_def registered_below_def rev_upt_64
        qualifies_def)

section \<open>Properties of \<open>os::next_random\<close>\<close>

lemma unat_mult32: "unat x * unat y < 4294967296 \<Longrightarrow> unat ((x::uint) * y) = unat x * unat y"
  using unat_mult_lem [of x y] by simp

lemma unat_add32: "unat x + unat y < 4294967296 \<Longrightarrow> unat ((x::uint) + y) = unat x + unat y"
  using unat_add_lem [of x y] by simp

lemma unat_fold32:
  fixes lo :: uint
  shows "unat (if lo > 2147483647 then (lo AND 2147483647) + 1 else lo)
       = (if unat lo > 2147483647 then unat lo mod 2147483648 + 1 else unat lo)"
proof -
  have m: "(2147483647 :: uint) = mask 31" by (simp add: mask_eq_exp_minus_1)
  have a: "unat (lo AND 2147483647) = unat lo mod 2147483648"
    by (simp only: m unat_and_mask_mod) simp
  have "unat (lo AND 2147483647) + unat (1::uint) < 4294967296"
    by (simp add: a)
  then have "unat ((lo AND 2147483647) + 1) = unat lo mod 2147483648 + 1"
    using unat_add32 [of "lo AND 2147483647" 1] a by simp
  then show ?thesis by (simp add: word_less_nat_alt)
qed

lemma unat_next_random: "unat (next_random w) = next_random_nat (unat w)"
proof -
  define s where "s = unat w"
  have s32: "s < 4294967296" using unsigned_less [of w, where ?'a = nat] by (simp add: s_def)
  have mk16: "(0xFFFF :: uint) = mask 16" and mk15: "(0x7FFF :: uint) = mask 15"
    by (simp_all add: mask_eq_exp_minus_1)
  have sl: "unat (w AND 0xFFFF) = s mod 65536"
    by (simp only: mk16 unat_and_mask_mod s_def) simp
  have sh: "unat (drop_bit 16 w) = s div 65536"
    by (simp only: unat_drop_bit_eq s_def) (simp add: drop_bit_eq_div)
  have shb: "s div 65536 < 65536" using s32 by simp
  have lo0: "unat (16807 * (w AND 0xFFFF)) = 16807 * (s mod 65536)"
    using unat_mult32 [of 16807 "w AND 0xFFFF"] sl mod_less_divisor [of 65536 s] by simp
  have hi: "unat (16807 * drop_bit 16 w) = 16807 * (s div 65536)"
    using unat_mult32 [of 16807 "drop_bit 16 w"] sh shb by simp
  define h where "h = 16807 * (s div 65536)"
  have hm: "unat ((16807 * drop_bit 16 w) AND 0x7FFF) = h mod 32768"
    by (simp only: mk15 unat_and_mask_mod hi h_def) simp
  have hp: "unat (push_bit 16 ((16807 * drop_bit 16 w) AND 0x7FFF)) = 65536 * (h mod 32768)"
  proof -
    have "push_bit 16 ((16807 * drop_bit 16 w) AND 0x7FFF) = 65536 * ((16807 * drop_bit 16 w) AND 0x7FFF)"
      by (simp add: push_bit_eq_mult)
    moreover have "unat (65536 * ((16807 * drop_bit 16 w) AND 0x7FFF)) = 65536 * (h mod 32768)"
      using unat_mult32 [of 65536 "(16807 * drop_bit 16 w) AND 0x7FFF"] hm
        mod_less_divisor [of 32768 h] by simp
    ultimately show ?thesis by simp
  qed
  have hd: "unat (drop_bit 15 (16807 * drop_bit 16 w)) = h div 32768"
    by (simp only: unat_drop_bit_eq hi h_def) (simp add: drop_bit_eq_div)
  have lo1: "unat (16807 * (w AND 0xFFFF) + push_bit 16 ((16807 * drop_bit 16 w) AND 0x7FFF))
             = 16807 * (s mod 65536) + 65536 * (h mod 32768)"
    using unat_add32 [of "16807 * (w AND 0xFFFF)" "push_bit 16 ((16807 * drop_bit 16 w) AND 0x7FFF)"]
      lo0 hp mod_less_divisor [of 65536 s] mod_less_divisor [of 32768 h] by simp
  define L where "L = 16807 * (s mod 65536) + 65536 * (h mod 32768)"
  define lo1w where "lo1w = 16807 * (w AND 0xFFFF) + push_bit 16 ((16807 * drop_bit 16 w) AND 0x7FFF)"
  define lo2w where "lo2w = (if lo1w > 2147483647 then (lo1w AND 2147483647) + 1 else lo1w)"
  define lo2 where "lo2 = (if L > 2147483647 then L mod 2147483648 + 1 else L)"
  have lo2e: "unat lo2w = lo2"
    unfolding lo2w_def lo2_def unat_fold32 using lo1 by (simp add: lo1w_def L_def)
  have "L mod 2147483648 < 2147483648" by simp
  then have lo2b: "lo2 \<le> 2147483648"
    unfolding lo2_def by (cases "L > 2147483647") simp_all
  have hdb: "h div 32768 < 65536" using shb by (simp add: h_def)
  define lo3w where "lo3w = lo2w + drop_bit 15 (16807 * drop_bit 16 w)"
  have lo3: "unat lo3w = lo2 + h div 32768"
    unfolding lo3w_def using unat_add32 [of lo2w "drop_bit 15 (16807 * drop_bit 16 w)"] lo2e hd lo2b hdb
    by simp
  have "next_random w = (if lo3w > 2147483647 then (lo3w AND 2147483647) + 1 else lo3w)"
    by (simp add: next_random_def Let_def lo3w_def lo2w_def lo1w_def)
  then have "unat (next_random w) = (if unat lo3w > 2147483647 then unat lo3w mod 2147483648 + 1 else unat lo3w)"
    by (simp only: unat_fold32)
  also have "\<dots> = next_random_nat s"
    unfolding next_random_nat_def Let_def lo3 lo2_def L_def h_def by (rule refl)
  finally show ?thesis by (simp add: s_def)
qed


lemma fold31: "x < 4294967296 \<Longrightarrow>
  (if x > 2147483647 then x mod 2147483648 + 1 else x) = (if x > 2147483647 then x - 2147483647 else (x::nat))"
proof (cases "x > 2147483647")
  case True
  assume "x < 4294967296"
  with True have "x div 2147483648 = 1" by simp
  then have "x mod 2147483648 = x - 2147483648" 
    using div_mult_mod_eq [of x 2147483648] by simp
  with True show ?thesis by simp
next
  case False
  then show ?thesis by simp
qed

lemma next_random_nat_decomp:
  assumes "s < 2147483647"
  shows "next_random_nat s \<le> 2147483647 \<and> (\<exists>q. 16807 * s = next_random_nat s + 2147483647 * q)"
proof -
  define sl sh where "sl = s mod 65536" and "sh = s div 65536"
  define h where "h = 16807 * sh"
  define hm H where "hm = h mod 32768" and "H = h div 32768"
  define L where "L = 16807 * sl + 65536 * hm"
  have s: "s = 65536 * sh + sl" by (simp add: sl_def sh_def)
  have slb: "sl < 65536" by (simp add: sl_def)
  have shb: "sh < 32768" using assms by (simp add: sh_def)
  have h: "h = 32768 * H + hm" by (simp add: hm_def H_def)
  have hmb: "hm < 32768" by (simp add: hm_def)
  have Hb: "H < 16807" using shb by (simp add: H_def h_def)
  have Lb: "L < 3248947200" using slb hmb by (simp add: L_def)
  have P: "16807 * s = L + 2147483648 * H"
    using s h by (simp add: L_def h_def)
  define lo2 where "lo2 = (if L > 2147483647 then L - 2147483647 else L)"
  have lo2b: "lo2 \<le> 2147483647" using Lb by (auto simp: lo2_def)
  define lo3 where "lo3 = lo2 + H"
  have lo3b: "lo3 < 4294967296" using lo2b Hb by (simp add: lo3_def)
  define lo4 where "lo4 = (if lo3 > 2147483647 then lo3 - 2147483647 else lo3)"
  have e: "next_random_nat s = lo4"
  proof -
    have "next_random_nat s =
        (let lo = (if L > 2147483647 then L mod 2147483648 + 1 else L);
             lo = lo + H
         in if lo > 2147483647 then lo mod 2147483648 + 1 else lo)"
      unfolding next_random_nat_def Let_def L_def H_def hm_def h_def sl_def sh_def by (rule refl)
    also have "(if L > 2147483647 then L mod 2147483648 + 1 else L) = lo2"
      unfolding lo2_def using Lb by (intro fold31) simp
    finally have "next_random_nat s = (if lo3 > 2147483647 then lo3 mod 2147483648 + 1 else lo3)"
      by (simp add: Let_def lo3_def)
    also have "\<dots> = lo4" unfolding lo4_def using lo3b by (rule fold31)
    finally show ?thesis .
  qed
  have b: "lo4 \<le> 2147483647" using lo2b Hb by (auto simp: lo4_def lo3_def)
  have "\<exists>q. L + 2147483648 * H = lo4 + 2147483647 * q"
  proof (cases "L > 2147483647")
    case True
    then have l2: "L = lo2 + 2147483647" by (simp add: lo2_def)
    show ?thesis
    proof (cases "lo3 > 2147483647")
      case True
      then have "lo2 + H = lo4 + 2147483647" by (simp add: lo4_def lo3_def)
      with l2 have "L + 2147483648 * H = lo4 + 2147483647 * (H + 2)" by simp
      then show ?thesis by blast
    next
      case False
      then have "lo2 + H = lo4" by (simp add: lo4_def lo3_def)
      with l2 have "L + 2147483648 * H = lo4 + 2147483647 * (H + 1)" by simp
      then show ?thesis by blast
    qed
  next
    case False
    then have l2: "L = lo2" by (simp add: lo2_def)
    show ?thesis
    proof (cases "lo3 > 2147483647")
      case True
      then have "lo2 + H = lo4 + 2147483647" by (simp add: lo4_def lo3_def)
      with l2 have "L + 2147483648 * H = lo4 + 2147483647 * (H + 1)" by simp
      then show ?thesis by blast
    next
      case False
      then have "lo2 + H = lo4" by (simp add: lo4_def lo3_def)
      with l2 have "L + 2147483648 * H = lo4 + 2147483647 * H" by simp
      then show ?thesis by blast
    qed
  qed
  with P e b show ?thesis by simp
qed

lemma coprime_16807: "coprime (16807::nat) 2147483647"
proof -
  have "coprime (7::nat) 2147483647"
    by (simp add: coprime_iff_gcd_eq_1 gcd_non_0_nat)
  then have "coprime ((7::nat) ^ 5) 2147483647" by (rule coprime_power_left_iff [THEN iffD2, OF disjI1])
  then show ?thesis by simp
qed

lemma next_random_nat_eq:
  assumes "0 < s" "s < 2147483647"
  shows "next_random_nat s = (16807 * s) mod 2147483647"
proof -
  from next_random_nat_decomp [OF assms(2)] obtain q where
    b: "next_random_nat s \<le> 2147483647" and q: "16807 * s = next_random_nat s + 2147483647 * q"
    by blast
  have "next_random_nat s \<noteq> 2147483647"
  proof
    assume "next_random_nat s = 2147483647"
    with q have "16807 * s = 2147483647 * (q + 1)" by simp
    then have "2147483647 dvd 16807 * s" by (metis dvd_triv_left)
    with coprime_16807 have "2147483647 dvd s"
      by (metis coprime_commute coprime_dvd_mult_right_iff)
    with assms show False by (auto dest: dvd_imp_le)
  qed
  with b have "next_random_nat s < 2147483647" by simp
  with q show ?thesis by simp
qed


lemma sint_small: "unat (w::uint) < 2147483648 \<Longrightarrow> sint w = int (unat w)"
proof -
  assume "unat w < 2147483648"
  then have "int (unat w) < int 2147483648" by (simp only: of_nat_less_iff)
  then have "uint w < 2 ^ 31" by simp
  moreover have "- (2 ^ 31) \<le> uint w" by (rule order_trans [of _ 0]) simp_all
  ultimately have "signed_take_bit 31 (uint w) = uint w" by (rule signed_take_bit_int_eq_self [rotated])
  then show ?thesis by (simp add: sint_uint)
qed

text \<open>
  The order of 16807 modulo \<open>2^31 - 1\<close> is \<open>2^31 - 2 = 2 * 3^2 * 7 * 11 * 31 * 151 * 331\<close>:
  the power \<open>2^31 - 2\<close> is 1, and no power \<open>(2^31 - 2) / q\<close> for a prime factor \<open>q\<close> is.
\<close>

lemma powmod_eq: "powmod a n m = a ^ n mod m"
proof (induction a n m rule: powmod.induct)
  case (1 a n m)
  show ?case
  proof (cases "n = 0")
    case True
    then show ?thesis by (simp add: powmod.simps)
  next
    case False
    with "1.IH" have IH: "powmod a (n div 2) m = a ^ (n div 2) mod m" by simp
    have sq: "(a ^ (n div 2) mod m * (a ^ (n div 2) mod m)) mod m = a ^ (2 * (n div 2)) mod m"
      by (simp add: mod_mult_eq power2_eq_square power_mult flip: power_add mult_2)
    show ?thesis
    proof (cases "even n")
      case True
      then have "2 * (n div 2) = n" by simp
      with sq IH True False show ?thesis by (subst powmod.simps) (simp add: Let_def)
    next
      case odd: False
      then have n: "Suc (2 * (n div 2)) = n" by simp
      have "(a ^ (2 * (n div 2)) mod m * a) mod m = a ^ Suc (2 * (n div 2)) mod m"
        by (simp add: mod_mult_right_eq mult.commute)
      with sq IH odd False n show ?thesis by (subst powmod.simps) (simp add: Let_def)
    qed
  qed
qed


lemma trivial_divisors_by_trial:
  assumes q: "1 < q" and trial: "\<forall>d \<in> set [2..<Suc r]. \<not> d dvd q" and r: "q < Suc r * Suc r"
  shows "trivial_divisors q"
  unfolding trivial_divisors_def
proof (intro allI impI)
  fix d assume "d dvd q"
  then obtain c where c: "q = d * c" by (auto simp: dvd_def)
  show "d = 1 \<or> d = q"
  proof (rule ccontr)
    assume n: "\<not> (d = 1 \<or> d = q)"
    have d0: "d \<noteq> 0" using c q by (cases "d = 0") simp_all
    have c0: "c \<noteq> 0" using c q by (cases "c = 0") simp_all
    from n c have c1: "c \<noteq> 1" by auto
    from n d0 have d2: "2 \<le> d" by simp
    from c0 c1 have c2: "2 \<le> c" by simp
    have "\<not> d \<le> r"
    proof
      assume "d \<le> r"
      with d2 have "d \<in> set [2..<Suc r]" by auto
      with trial \<open>d dvd q\<close> show False by blast
    qed
    moreover have "\<not> c \<le> r"
    proof
      assume "c \<le> r"
      with c2 have "c \<in> set [2..<Suc r]" by auto
      moreover have "c dvd q" using c by simp
      ultimately show False using trial by blast
    qed
    ultimately have "Suc r \<le> d" "Suc r \<le> c" by simp_all
    then have "Suc r * Suc r \<le> d * c" by (rule mult_le_mono)
    with c r show False by simp
  qed
qed

lemma trivial_divisors_coprime:
  assumes "trivial_divisors q" "\<not> q dvd e"
  shows "coprime q e"
proof -
  have "gcd q e dvd q" by simp
  with assms(1) have "gcd q e = 1 \<or> gcd q e = q" by (simp add: trivial_divisors_def)
  moreover have "gcd q e \<noteq> q"
  proof
    assume "gcd q e = q"
    then have "q dvd e" by (metis gcd_dvd2)
    with assms(2) show False by simp
  qed
  ultimately show ?thesis by (simp add: coprime_iff_gcd_eq_1)
qed

lemma power_mod_one_mult:
  fixes a m :: nat
  assumes "a ^ N mod m = 1"
  shows "a ^ (N * k) mod m = 1"
proof -
  have "a ^ (N * k) mod m = (a ^ N mod m) ^ k mod m" by (simp add: power_mult power_mod)
  also have "\<dots> = 1 mod m" using assms by simp
  also have "\<dots> = 1" using assms by (metis mod_mod_trivial)
  finally show ?thesis .
qed

lemma power_mod_one_mod:
  fixes a m :: nat
  assumes x: "a ^ x mod m = 1" and y: "a ^ y mod m = 1"
  shows "a ^ (y mod x) mod m = 1"
proof -
  have "a ^ y = a ^ (x * (y div x)) * a ^ (y mod x)" by (simp flip: power_add)
  then have "a ^ y mod m = ((a ^ (x * (y div x)) mod m) * (a ^ (y mod x) mod m)) mod m"
    by (simp add: mod_mult_eq)
  also have "\<dots> = a ^ (y mod x) mod m" by (simp add: power_mod_one_mult [OF x])
  finally show ?thesis using y by simp
qed

lemma power_mod_one_gcd:
  fixes a m :: nat
  assumes m: "1 < m"
  shows "a ^ x mod m = 1 \<Longrightarrow> a ^ y mod m = 1 \<Longrightarrow> a ^ gcd x y mod m = 1"
proof (induction x y rule: gcd_nat_induct)
  case (base x)
  then show ?case by simp
next
  case (step x y)
  from step.prems have "a ^ (x mod y) mod m = 1" by (intro power_mod_one_mod)
  with step have "a ^ gcd y (x mod y) mod m = 1" by simp
  moreover have "gcd y (x mod y) = gcd x y" by (metis gcd_red_nat)
  ultimately show ?case by simp
qed

lemma order_from_maximal:
  fixes a m N :: nat
  assumes m: "1 < m" and N: "0 < N" and one: "a ^ N mod m = 1"
    and max: "\<And>d. d dvd N \<Longrightarrow> d < N \<Longrightarrow> a ^ d mod m \<noteq> 1"
  shows "(a ^ n mod m = 1) = (N dvd n)"
proof
  assume "N dvd n"
  then obtain k where "n = N * k" by (auto simp: dvd_def)
  with one show "a ^ n mod m = 1" by (simp add: power_mod_one_mult)
next
  assume n: "a ^ n mod m = 1"
  with one have g: "a ^ gcd n N mod m = 1" by (intro power_mod_one_gcd [OF m])
  have "gcd n N dvd N" by simp
  moreover have "\<not> gcd n N < N" using max [of "gcd n N"] g by auto
  moreover have "gcd n N \<le> N" using N by (intro dvd_imp_le) simp_all
  ultimately have "gcd n N = N" by simp
  then show "N dvd n" by (metis gcd_dvd1)
qed

lemma power_mod_cancel:
  fixes a m :: nat
  assumes m: "1 < m" and N: "0 < N" and one: "a ^ N mod m = 1"
  shows "((a ^ n * a ^ k) mod m = a ^ k mod m) = (a ^ n mod m = 1)"
proof
  assume "a ^ n mod m = 1"
  then have "(a ^ n * a ^ k) mod m = (1 * a ^ k) mod m" by (metis mod_mult_left_eq)
  then show "(a ^ n * a ^ k) mod m = a ^ k mod m" by simp
next
  assume e: "(a ^ n * a ^ k) mod m = a ^ k mod m"
  define K where "K = N * k"
  have K1: "a ^ K mod m = 1" unfolding K_def using one by (rule power_mod_one_mult)
  have kK: "k \<le> K" using N by (simp add: K_def)
  then have split: "a ^ K = a ^ (K - k) * a ^ k" by (simp flip: power_add)
  have "(a ^ (K - k) * (a ^ n * a ^ k)) mod m = (a ^ (K - k) * a ^ k) mod m"
    using e by (metis mod_mult_right_eq)
  then have "(a ^ n * a ^ K) mod m = a ^ K mod m" by (simp add: split mult.assoc mult.left_commute)
  then have "(a ^ n mod m * (a ^ K mod m)) mod m = a ^ K mod m" by (simp add: mod_mult_eq)
  then show "a ^ n mod m = 1" by (simp add: K1)
qed

lemma power_mod_nonzero:
  fixes a m :: nat
  assumes m: "1 < m" and N: "0 < N" and one: "a ^ N mod m = 1"
  shows "a ^ k mod m \<noteq> 0"
proof
  assume z: "a ^ k mod m = 0"
  have "a ^ (N * k) mod m = 1" using one by (rule power_mod_one_mult)
  moreover have "a ^ (N * k) = (a ^ k) ^ N" by (metis power_mult mult.commute)
  moreover have "(a ^ k) ^ N mod m = (a ^ k mod m) ^ N mod m" by (simp add: power_mod)
  ultimately have "(0::nat) ^ N mod m = 1" using z by simp
  moreover from N have "(0::nat) ^ N = 0" by simp
  ultimately show False by simp
qed

lemma powers_cover:
  fixes a m :: nat
  assumes m: "2 < m" and one: "a ^ (m - 1) mod m = 1"
    and ord: "\<And>n. (a ^ n mod m = 1) = ((m - 1) dvd n)"
    and s: "0 < s" "s < m"
  shows "\<exists>k. s = a ^ k mod m"
proof -
  let ?f = "\<lambda>k. a ^ k mod m"
  from m have m1: "1 < m" and N: "0 < m - 1" by simp_all
  have inj: "inj_on ?f {0..<m - 1}"
  proof (rule linorder_inj_onI)
    fix i j assume lt: "i < j" and j: "j \<in> {0..<m - 1}"
    show "?f i \<noteq> ?f j"
    proof
      assume eq: "?f i = ?f j"
      from lt have "a ^ j = a ^ (j - i) * a ^ i" by (simp flip: power_add)
      with eq have "(a ^ (j - i) * a ^ i) mod m = a ^ i mod m" by simp
      then have "a ^ (j - i) mod m = 1" using power_mod_cancel [OF m1 N one] by simp
      then have "(m - 1) dvd (j - i)" using ord [of "j - i"] by simp
      moreover from lt j have "0 < j - i" "j - i < m - 1" by auto
      ultimately show False by (auto dest: dvd_imp_le)
    qed
  qed auto
  have sub: "?f ` {0..<m - 1} \<subseteq> {1..<m}"
  proof
    fix x assume "x \<in> ?f ` {0..<m - 1}"
    then obtain k where x: "x = a ^ k mod m" by blast
    have "x \<noteq> 0" unfolding x using m1 N one by (rule power_mod_nonzero)
    moreover have "x < m" unfolding x using m by simp
    ultimately show "x \<in> {1..<m}" by simp
  qed
  have "card (?f ` {0..<m - 1}) = m - 1" using inj by (simp add: card_image)
  then have "card (?f ` {0..<m - 1}) = card {1..<m}" by simp
  with sub have "?f ` {0..<m - 1} = {1..<m}" by (intro card_subset_eq) simp_all
  moreover from s have "s \<in> {1..<m}" by simp
  ultimately show ?thesis by blast
qed


lemma small_primes:
  "trivial_divisors 2" "trivial_divisors 3" "trivial_divisors 7" "trivial_divisors 11"
  "trivial_divisors 31" "trivial_divisors 151" "trivial_divisors 331"
proof -
  show "trivial_divisors 2" by (rule trivial_divisors_by_trial [where r = 1]) (simp_all add: upt_rec)
  show "trivial_divisors 3" by (rule trivial_divisors_by_trial [where r = 1]) (simp_all add: upt_rec)
  show "trivial_divisors 7" by (rule trivial_divisors_by_trial [where r = 2]) (simp_all add: upt_rec)
  show "trivial_divisors 11" by (rule trivial_divisors_by_trial [where r = 3]) (simp_all add: upt_rec)
  show "trivial_divisors 31" by (rule trivial_divisors_by_trial [where r = 5]) (simp_all add: upt_rec)
  show "trivial_divisors 151" by (rule trivial_divisors_by_trial [where r = 12]) (simp_all add: upt_rec)
  show "trivial_divisors 331" by (rule trivial_divisors_by_trial [where r = 18]) (simp_all add: upt_rec)
qed

lemma period_factors: "(2147483646::nat) = 2 * 3 ^ 2 * 7 * 11 * 31 * 151 * 331"
  by simp

lemma divisor_has_prime_factor:
  assumes e: "e dvd (2147483646::nat)" and e1: "1 < e"
  shows "\<exists>q \<in> {2, 3, 7, 11, 31, 151, 331}. q dvd e"
proof (rule ccontr)
  assume "\<not> (\<exists>q \<in> {2, 3, 7, 11, 31, 151, 331}. q dvd e)"
  then have "coprime 2 e" "coprime 3 e" "coprime 7 e" "coprime 11 e" "coprime 31 e"
    "coprime 151 e" "coprime 331 e"
    using small_primes by (simp_all add: trivial_divisors_coprime)
  then have "coprime (2 * 3 ^ 2 * 7 * 11 * 31 * 151 * 331) e"
    by (simp only: coprime_mult_left_iff coprime_power_left_iff) simp
  then have "coprime 2147483646 e" by (simp only: period_factors [symmetric])
  with e have "e = 1" by (metis coprime_absorb_right coprime_commute gcd_nat.absorb_iff2 coprime_iff_gcd_eq_1 gcd.commute)
  with e1 show False by simp
qed


lemma lcg_power_powmod: "lcg_power n = powmod 16807 n 2147483647"
  by (simp only: lcg_power_def powmod_eq)

lemma lcg_power_period: "lcg_power 2147483646 = 1"
  unfolding lcg_power_powmod by (simp add: powmod.simps Let_def)

lemma lcg_power_cofactors:
  "lcg_power (2147483646 div 2) \<noteq> 1" "lcg_power (2147483646 div 3) \<noteq> 1"
  "lcg_power (2147483646 div 7) \<noteq> 1" "lcg_power (2147483646 div 11) \<noteq> 1"
  "lcg_power (2147483646 div 31) \<noteq> 1" "lcg_power (2147483646 div 151) \<noteq> 1"
  "lcg_power (2147483646 div 331) \<noteq> 1"
  unfolding lcg_power_powmod by (simp_all add: powmod.simps Let_def)

lemma lcg_power_proper_divisor:
  assumes d: "d dvd 2147483646" "d < 2147483646"
  shows "lcg_power d \<noteq> 1"
proof
  assume one: "lcg_power d = 1"
  from d(1) obtain e where e: "2147483646 = d * e" by (auto simp: dvd_def)
  with d(2) have "e \<noteq> 0" "e \<noteq> 1" by auto
  then have e1: "1 < e" by simp
  have "e dvd 2147483646" using e by (metis dvd_triv_right)
  from divisor_has_prime_factor [OF this e1] obtain q where
    q: "q \<in> {2, 3, 7, 11, 31, 151, 331}" and qe: "q dvd e" by blast
  then obtain e' where e': "e = q * e'" by (auto simp: dvd_def)
  from q have q0: "0 < q" by auto
  have "d * (q * e') = q * (d * e')" by (simp add: mult.left_commute)
  with e e' have "2147483646 = q * (d * e')" by simp
  then have "2147483646 div q = d * e'" using q0 by (metis nonzero_mult_div_cancel_left less_numeral_extra(3))
  moreover have "lcg_power (d * e') = 1"
    using one unfolding lcg_power_def by (rule power_mod_one_mult)
  ultimately have "lcg_power (2147483646 div q) = 1" by simp
  with q lcg_power_cofactors show False by auto
qed

lemma lcg_power_order: "(lcg_power n = 1) = (2147483646 dvd n)"
  unfolding lcg_power_def
proof (rule order_from_maximal)
  show "(1::nat) < 2147483647" "(0::nat) < 2147483646" by simp_all
  show "16807 ^ 2147483646 mod 2147483647 = (1::nat)"
    using lcg_power_period unfolding lcg_power_def .
  show "16807 ^ d mod 2147483647 \<noteq> (1::nat)" if "d dvd 2147483646" "d < 2147483646" for d
    using lcg_power_proper_divisor [OF that] unfolding lcg_power_def .
qed


lemma funpow_mult_mod:
  fixes a m :: nat
  shows "((\<lambda>s. (a * s) mod m) ^^ n) s mod m = (a ^ n * s) mod m"
proof (induction n)
  case 0
  then show ?case by simp
next
  case (Suc n)
  have "((\<lambda>s. (a * s) mod m) ^^ Suc n) s mod m = (a * (((\<lambda>s. (a * s) mod m) ^^ n) s mod m)) mod m"
    by (simp add: mod_mult_right_eq)
  also have "\<dots> = (a * ((a ^ n * s) mod m)) mod m" by (simp only: Suc.IH)
  also have "\<dots> = (a ^ Suc n * s) mod m" by (simp add: mod_mult_right_eq mult.assoc)
  finally show ?case .
qed

lemma lcg_funpow: "s < 2147483647 \<Longrightarrow> (lcg ^^ n) s = (16807 ^ n * s) mod 2147483647"
proof -
  assume s: "s < 2147483647"
  have l: "lcg = (\<lambda>s. (16807 * s) mod 2147483647)" by (rule ext) (simp add: lcg_def)
  have "(lcg ^^ n) s < 2147483647"
  proof (cases n)
    case 0
    with s show ?thesis by simp
  next
    case (Suc k)
    then show ?thesis by (simp add: lcg_def)
  qed
  then have "(lcg ^^ n) s = (lcg ^^ n) s mod 2147483647" by simp
  also have "\<dots> = (16807 ^ n * s) mod 2147483647" unfolding l by (rule funpow_mult_mod)
  finally show ?thesis .
qed

lemma lcg_one: "16807 ^ 2147483646 mod 2147483647 = (1::nat)"
  using lcg_power_period unfolding lcg_power_def .

lemma lcg_order: "(16807 ^ n mod 2147483647 = (1::nat)) = (2147483646 dvd n)"
  using lcg_power_order [of n] unfolding lcg_power_def .

lemma lcg_is_power:
  fixes s :: nat
  assumes "0 < s" "s < 2147483647"
  shows "\<exists>k. s = 16807 ^ k mod 2147483647"
proof (rule powers_cover)
  show "(2::nat) < 2147483647" by simp
  have e: "(2147483647::nat) - 1 = 2147483646" by simp
  show "16807 ^ (2147483647 - 1) mod 2147483647 = (1::nat)" unfolding e by (rule lcg_one)
  show "(16807 ^ n mod 2147483647 = (1::nat)) = (2147483647 - 1 dvd n)" for n
    unfolding e by (rule lcg_order)
qed (use assms in simp_all)

lemma lcg_period:
  assumes s: "0 < s" "s < 2147483647"
  shows "((lcg ^^ n) s = s) = (2147483646 dvd n)"
    and "0 < (lcg ^^ n) s" and "(lcg ^^ n) s < 2147483647"
proof -
  from lcg_is_power [OF s] obtain k where k: "s = 16807 ^ k mod 2147483647" by blast
  have m: "(1::nat) < 2147483647" and N: "(0::nat) < 2147483646" by simp_all
  have it: "(lcg ^^ n) s = (16807 ^ n * 16807 ^ k) mod 2147483647"
    using lcg_funpow [OF s(2), of n] k by (metis mod_mult_right_eq)
  have "((lcg ^^ n) s = s) = ((16807 ^ n * 16807 ^ k) mod 2147483647 = 16807 ^ k mod (2147483647::nat))"
    using it k by simp
  also have "\<dots> = (16807 ^ n mod 2147483647 = (1::nat))"
    by (rule power_mod_cancel [OF m N lcg_one])
  also have "\<dots> = (2147483646 dvd n)" by (rule lcg_order)
  finally show "((lcg ^^ n) s = s) = (2147483646 dvd n)" .
  have "(lcg ^^ n) s = 16807 ^ (n + k) mod 2147483647" by (simp only: it power_add)
  moreover have "16807 ^ (n + k) mod 2147483647 \<noteq> (0::nat)"
    by (rule power_mod_nonzero [OF m N lcg_one])
  ultimately show "0 < (lcg ^^ n) s" by simp
  show "(lcg ^^ n) s < 2147483647" unfolding it by simp
qed

lemma unat_next_random_lcg:
  "0 < unat w \<Longrightarrow> unat w < 2147483647 \<Longrightarrow> unat (next_random w) = lcg (unat w)"
  by (simp only: unat_next_random next_random_nat_eq lcg_def)

lemma unat_funpow_next_random:
  assumes w: "0 < unat w" "unat w < 2147483647"
  shows "unat ((next_random ^^ n) w) = (lcg ^^ n) (unat w)"
proof (induction n)
  case 0
  show ?case by simp
next
  case (Suc n)
  from lcg_period(2,3) [OF w, of n] Suc
  have "0 < unat ((next_random ^^ n) w)" "unat ((next_random ^^ n) w) < 2147483647" by simp_all
  then have "unat (next_random ((next_random ^^ n) w)) = lcg (unat ((next_random ^^ n) w))"
    by (rule unat_next_random_lcg)
  with Suc show ?case by simp
qed

text \<open>
  C6. For every seed in \<open>[1, 2^31 - 2]\<close>, \<open>os::next_random seed\<close> is
  \<open>(16807 * seed) mod (2^31 - 1)\<close> computed over the integers, although the code
  computes in 32-bit arithmetic. The result is again in \<open>[1, 2^31 - 2]\<close>, and iterating
  \<open>next_random\<close> from the seed comes back to the seed exactly after the multiples of
  \<open>2^31 - 2\<close> steps: the sequence has the full period. (\<open>next_random\<close> is a function
  of its argument: the same seed gives the same value.)
\<close>

theorem next_random_lcg:
  assumes "1 \<le> unat seed" "unat seed \<le> 2 ^ 31 - 2"
  shows "sint (next_random seed) = (16807 * int (unat seed)) mod (2 ^ 31 - 1)
       \<and> 1 \<le> unat (next_random seed) \<and> unat (next_random seed) \<le> 2 ^ 31 - 2
       \<and> (\<forall>n. ((next_random ^^ n) seed = seed) = ((2 ^ 31 - 2) dvd n))"
proof -
  from assms have s: "0 < unat seed" "unat seed < 2147483647" by simp_all
  have r: "unat (next_random seed) = (16807 * unat seed) mod 2147483647"
    by (simp only: unat_next_random next_random_nat_eq [OF s])
  have "(16807 * unat seed) mod 2147483647 < 2147483647" by simp
  then have "unat (next_random seed) < 2147483648" unfolding r by simp
  then have "sint (next_random seed) = int (unat (next_random seed))" by (rule sint_small)
  also have "\<dots> = int ((16807 * unat seed) mod 2147483647)" by (simp only: r)
  also have "\<dots> = (16807 * int (unat seed)) mod 2147483647" by (simp only: zmod_int) simp
  finally have 1: "sint (next_random seed) = (16807 * int (unat seed)) mod (2 ^ 31 - 1)" by simp
  have "unat (next_random seed) = (lcg ^^ 1) (unat seed)"
    using unat_next_random_lcg [OF s] by simp
  with lcg_period(2,3) [OF s, of 1]
  have 2: "1 \<le> unat (next_random seed)" "unat (next_random seed) \<le> 2 ^ 31 - 2" by simp_all
  have 3: "((next_random ^^ n) seed = seed) = ((2 ^ 31 - 2) dvd n)" for n
  proof -
    have "((next_random ^^ n) seed = seed) = (unat ((next_random ^^ n) seed) = unat seed)"
      by (simp add: word_unat_eq_iff)
    also have "\<dots> = ((lcg ^^ n) (unat seed) = unat seed)"
      by (simp only: unat_funpow_next_random [OF s])
    also have "\<dots> = (2147483646 dvd n)" by (rule lcg_period(1) [OF s])
    finally show ?thesis by simp
  qed
  from 1 2 3 show ?thesis by blast
qed

theorem next_random_lcg_witness:
  "1 \<le> unat (1234567 :: uint) \<and> unat (1234567 :: uint) \<le> 2 ^ 31 - 2
   \<and> sint (next_random 1234567) = (16807 * 1234567) mod (2 ^ 31 - 1)
   \<and> next_random 1234567 = 1422014746
   \<and> (next_random ^^ 2147483646) 1234567 = (1234567 :: uint)
   \<and> (next_random ^^ 1073741823) 1234567 \<noteq> (1234567 :: uint)"
proof -
  have h: "1 \<le> unat (1234567 :: uint)" "unat (1234567 :: uint) \<le> 2 ^ 31 - 2" by simp_all
  note T = next_random_lcg [OF h]
  have e: "next_random 1234567 = 1422014746" by (simp add: next_random_def)
  have d: "(2 ^ 31 - 2 :: nat) dvd 2147483646" "\<not> (2 ^ 31 - 2 :: nat) dvd 1073741823" by simp_all
  from T d have "(next_random ^^ 2147483646) 1234567 = (1234567 :: uint)"
    "(next_random ^^ 1073741823) 1234567 \<noteq> (1234567 :: uint)" by blast+
  moreover from T have "sint (next_random 1234567) = (16807 * 1234567) mod (2 ^ 31 - 1)" by simp
  ultimately show ?thesis using h e by blast
qed

section \<open>Properties of \<open>os::is_readable_range\<close>\<close>

lemma unat_add_le: "unat ((p::uintptr_t) + q) \<le> unat p + unat q"
  by (simp add: unat_word_ariths(1))

lemma is_readable_range_loop_true:
  assumes "is_readable_range_loop mem mps to p = Some r"
  shows "fst r \<longrightarrow>
     (\<forall>k. unat p + k * unat mps < unat to \<longrightarrow> is_readable_pointer mem (p + of_nat k * mps))
     \<and> (\<forall>q \<in> set (snd r). is_readable_pointer mem q)"
proof -
  let ?Q = "\<lambda>(mem::memory) (mps::uintptr_t) (to::uintptr_t) (p::uintptr_t) (r::bool \<times> uintptr_t list). fst r \<longrightarrow>
     (\<forall>k. unat p + k * unat mps < unat to \<longrightarrow> is_readable_pointer mem (p + of_nat k * mps))
     \<and> (\<forall>q \<in> set (snd r). is_readable_pointer mem q)"
  have "?Q mem mps to p r"
  proof (rule is_readable_range_loop.raw_induct [where P = ?Q, OF _ assms])
  fix loop :: "memory \<Rightarrow> uintptr_t \<Rightarrow> uintptr_t \<Rightarrow> uintptr_t \<Rightarrow> (bool \<times> uintptr_t list) option"
    and mem :: memory and mps to p :: uintptr_t and r :: "bool \<times> uintptr_t list"
  assume IH: "\<And>mem mps to p r. loop mem mps to p = Some r \<Longrightarrow> ?Q mem mps to p r"
  assume eq: "(if p < to then
        if \<not> is_readable_pointer mem p then Some (False, [p])
        else Option.bind (loop mem mps to (p + mps)) (\<lambda>r. Some (fst r, p # snd r))
      else Some (True, [])) = Some r"
  show "?Q mem mps to p r"
  proof (cases "p < to")
    case False
    with eq have "r = (True, [])" by simp
    moreover have "\<not> unat p + k * unat mps < unat to" for k
      using False by (simp add: word_less_nat_alt)
    ultimately show ?thesis by simp
  next
    case True
    show ?thesis
    proof (cases "is_readable_pointer mem p")
      case False
      with True eq show ?thesis by auto
    next
      case rd: True
      with True eq obtain r' where
        rec: "loop mem mps to (p + mps) = Some r'" and r: "r = (fst r', p # snd r')"
        by (auto simp: bind_eq_Some_conv)
      show ?thesis
      proof
        assume "fst r"
        with r have "fst r'" by simp
        with IH [OF rec] have
          IH1: "\<And>k. unat (p + mps) + k * unat mps < unat to \<Longrightarrow> is_readable_pointer mem (p + mps + of_nat k * mps)"
          and IH2: "\<And>q. q \<in> set (snd r') \<Longrightarrow> is_readable_pointer mem q"
          by blast+
        have "is_readable_pointer mem (p + of_nat k * mps)" if "unat p + k * unat mps < unat to" for k
        proof (cases k)
          case 0
          with rd show ?thesis by simp
        next
          case (Suc j)
          have "unat (p + mps) + j * unat mps \<le> unat p + unat mps + j * unat mps"
            using unat_add_le [of p mps] by simp
          with that Suc have "unat (p + mps) + j * unat mps < unat to" by simp
          then have "is_readable_pointer mem (p + mps + of_nat j * mps)" by (rule IH1)
          moreover have "p + mps + of_nat j * mps = p + of_nat k * mps"
            by (simp add: Suc algebra_simps)
          ultimately show ?thesis by simp
        qed
        moreover have "is_readable_pointer mem q" if "q \<in> set (snd r)" for q
          using that r rd IH2 by auto
        ultimately show "(\<forall>k. unat p + k * unat mps < unat to \<longrightarrow> is_readable_pointer mem (p + of_nat k * mps))
          \<and> (\<forall>q \<in> set (snd r). is_readable_pointer mem q)" by blast
      qed
    qed
  qed
  qed
  then show ?thesis .
qed

lemma is_readable_range_loop_returns:
  assumes "mps \<noteq> 0" "unat to + unat mps \<le> 2 ^ 64"
  shows "\<exists>r. is_readable_range_loop mem mps to p = Some r"
proof (induction "unat to - unat p" arbitrary: p rule: less_induct)
  case less
  show ?case
  proof (cases "p < to")
    case False
    then show ?thesis by (subst is_readable_range_loop.simps) auto
  next
    case True
    then have lt: "unat p < unat to" by (simp add: word_less_nat_alt)
    with assms(2) have "unat p + unat mps < 2 ^ 64" by simp
    then have "unat (p + mps) = unat p + unat mps" using unat_add_lem [of p mps] by simp
    moreover have "0 < unat mps" using assms(1) by (simp add: unat_gt_0)
    ultimately have "unat to - unat (p + mps) < unat to - unat p" using lt by simp
    from less [OF this] obtain r' where "is_readable_range_loop mem mps to (p + mps) = Some r'" by blast
    then show ?thesis by (subst is_readable_range_loop.simps) auto
  qed
qed

text \<open>
  C9. For an empty or inverted range (\<open>from \<ge> to\<close>) \<open>os::is_readable_range\<close> returns
  false and probes nothing. When it returns true, \<open>from < to\<close> and every probe succeeded:
  the probed addresses are readable, and so is every address \<open>align_down from + k * min_page_size\<close>
  below \<open>to\<close>. (When the stride is not 0 and \<open>to + min_page_size\<close> does not wrap, the
  loop returns: \<open>is_readable_range_loop_returns\<close>.)
\<close>

theorem is_readable_range_claim:
  "(to \<le> from \<longrightarrow> is_readable_range mem mps from to = Some (False, []))
   \<and> (is_readable_range mem mps from to = Some (True, ps) \<longrightarrow>
        from < to
        \<and> (\<forall>k. unat (align_down from mps) + k * unat mps < unat to \<longrightarrow>
               is_readable_pointer mem (align_down from mps + of_nat k * mps))
        \<and> (\<forall>q \<in> set ps. is_readable_pointer mem q))"
proof (intro conjI impI)
  assume "to \<le> from"
  then show "is_readable_range mem mps from to = Some (False, [])" by (simp add: is_readable_range_def)
next
  assume a: "is_readable_range mem mps from to = Some (True, ps)"
  then show lt: "from < to" by (auto simp: is_readable_range_def split: if_splits)
  with a have "is_readable_range_loop mem mps to (align_down from mps) = Some (True, ps)"
    by (auto simp: is_readable_range_def split: if_splits)
  from is_readable_range_loop_true [OF this]
  show "\<forall>k. unat (align_down from mps) + k * unat mps < unat to \<longrightarrow>
               is_readable_pointer mem (align_down from mps + of_nat k * mps)"
    and "\<forall>q \<in> set ps. is_readable_pointer mem q" by simp_all
qed


theorem is_readable_range_claim_witness:
  "is_readable_range [0x1000 \<mapsto> 7, 0x2000 \<mapsto> 0xcafebabe] 0x1000 0x2008 0x1234 = Some (False, [])
   \<and> is_readable_range [0x1000 \<mapsto> 7, 0x2000 \<mapsto> 0xcafebabe] 0x1000 0x1234 0x2008 = Some (True, [0x1000, 0x2000])
   \<and> (0x1234 :: uintptr_t) < 0x2008
   \<and> is_readable_pointer [0x1000 \<mapsto> 7, 0x2000 \<mapsto> 0xcafebabe] 0x1000
   \<and> is_readable_pointer [0x1000 \<mapsto> 7, 0x2000 \<mapsto> 0xcafebabe] 0x2000"
proof -
  let ?m = "[0x1000 \<mapsto> 7, 0x2000 \<mapsto> 0xcafebabe] :: memory"
  have le: "(0x1234 :: uintptr_t) \<le> 0x2008" by simp
  have e: "is_readable_range ?m 0x1000 0x1234 0x2008 = Some (True, [0x1000, 0x2000])"
    by (simp add: is_readable_range_def is_readable_range_loop.simps align_down_def
          is_readable_pointer_def SafeFetch32_def)
  note c = is_readable_range_claim [of "0x1234" "0x2008" ?m "0x1000" "[0x1000, 0x2000]"]
  note d = is_readable_range_claim [of "0x2008" "0x1234" ?m "0x1000" "[0x1000, 0x2000]"]
  from c le have "is_readable_range ?m 0x1000 0x2008 0x1234 = Some (False, [])" by blast
  moreover from d e have "(0x1234 :: uintptr_t) < 0x2008"
    and "\<forall>q \<in> set [0x1000, 0x2000]. is_readable_pointer ?m q" by blast+
  ultimately show ?thesis using e by simp
qed

section \<open>Properties of \<open>signal_thread_entry\<close>\<close>

lemma do_actions_simps [simp]:
  "phase (do_actions as s) = phase s"
  "pending_exception (do_actions as s) = pending_exception s"
  "actions (do_actions as s) = actions s @ as"
  by (simp_all add: do_actions_def)

lemma handler_pending:
  "pending_exception s = None \<Longrightarrow> pending_exception (handler c e sig s) = None"
  by (auto simp: handler_def sigbreak_handler_def attach_negotiation_def default_handler_def Let_def
      split: option.splits prod.splits if_splits)

lemma step_terminated:
  "step c s l s' \<Longrightarrow> phase s' = TERMINATED \<Longrightarrow> phase s = WAITING \<and> l = Receive (sigexitnum_pd c)"
  by (induction rule: step.induct) simp_all

lemma step_dispatching:
  "step c s l s' \<Longrightarrow> phase s = DISPATCHING sig \<Longrightarrow>
   phase s' = WAITING \<and> (\<exists>e. l = Handle e \<and> s' = (handler c e sig s)\<lparr>phase := WAITING\<rparr>)"
  by (induction rule: step.induct) auto

lemma step_waiting:
  "step c s l s' \<Longrightarrow> phase s = WAITING \<Longrightarrow>
   (\<exists>sig. l = Receive sig \<and> s' = s\<lparr>phase := if sig = sigexitnum_pd c then TERMINATED else DISPATCHING sig\<rparr>)"
  by (induction rule: step.induct) auto

lemma step_no_exit:
  "step c s l s' \<Longrightarrow> phase s \<noteq> TERMINATED \<Longrightarrow> l \<noteq> Receive (sigexitnum_pd c) \<Longrightarrow> phase s' \<noteq> TERMINATED"
  by (induction rule: step.induct) auto

lemma run_no_exit:
  "run c s ls s' \<Longrightarrow> phase s \<noteq> TERMINATED \<Longrightarrow> Receive (sigexitnum_pd c) \<notin> set ls \<Longrightarrow> phase s' \<noteq> TERMINATED"
proof (induction rule: run.induct)
  case (run_nil s)
  then show ?case by simp
next
  case (run_step s l s' ls s'')
  then have "phase s' \<noteq> TERMINATED" using step_no_exit [of c s l s'] by auto
  with run_step show ?case by simp
qed

lemma default_handler_exception:
  "sig \<noteq> SIGBREAK c \<Longrightarrow> raised e = Some k \<Longrightarrow>
   pending_exception (handler c e sig s) = None
   \<and> actions (handler c e sig s) =
       actions s @ (if klass_resolved e then [CallDispatch sig] else []) @ (if tty_present e then [Warning k sig] else [])"
  by (simp add: handler_def default_handler_def Let_def)


text \<open>
  C8, as the code has it. The only step into \<open>TERMINATED\<close> is receiving
  \<open>sigexitnum_pd\<close> while waiting. Any other signal is dispatched, the handler always
  has a step, and every step of the handler leads back to \<open>WAITING\<close>. An exception
  left pending by the upcall is cleared, and a warning is logged for it when \<open>tty\<close> is
  not null. A run that starts before termination and never receives the exit signal
  does not terminate.
\<close>

theorem signal_thread_entry_dispatch:
  "(step c s l s' \<and> phase s' = TERMINATED \<longrightarrow> phase s = WAITING \<and> l = Receive (sigexitnum_pd c))
   \<and> (phase s = WAITING \<and> sig \<noteq> sigexitnum_pd c \<longrightarrow> step c s (Receive sig) (s\<lparr>phase := DISPATCHING sig\<rparr>))
   \<and> (phase s = DISPATCHING sig \<longrightarrow> step c s (Handle e) ((handler c e sig s)\<lparr>phase := WAITING\<rparr>))
   \<and> (phase s = DISPATCHING sig \<and> step c s l s' \<longrightarrow> phase s' = WAITING)
   \<and> (sig \<noteq> SIGBREAK c \<and> raised e = Some k \<longrightarrow>
        pending_exception (handler c e sig s) = None
        \<and> (tty_present e \<longrightarrow> Warning k sig \<in> set (actions (handler c e sig s))))
   \<and> (run c s ls s' \<and> phase s \<noteq> TERMINATED \<and> Receive (sigexitnum_pd c) \<notin> set ls \<longrightarrow> phase s' \<noteq> TERMINATED)"
proof (intro conjI impI; (elim conjE)?)
  show "phase s = WAITING" "l = Receive (sigexitnum_pd c)" if "step c s l s'" "phase s' = TERMINATED"
    using step_terminated [OF that] by simp_all
  show "step c s (Receive sig) (s\<lparr>phase := DISPATCHING sig\<rparr>)" if "phase s = WAITING" "sig \<noteq> sigexitnum_pd c"
    using that by (rule receive_signal)
  show "step c s (Handle e) ((handler c e sig s)\<lparr>phase := WAITING\<rparr>)" if "phase s = DISPATCHING sig"
    using that by (rule dispatch)
  show "phase s' = WAITING" if "phase s = DISPATCHING sig" "step c s l s'"
    using step_dispatching [OF that(2,1)] by simp
  show "pending_exception (handler c e sig s) = None" if "sig \<noteq> SIGBREAK c" "raised e = Some k"
    using default_handler_exception [OF that] by simp
  show "Warning k sig \<in> set (actions (handler c e sig s))"
    if "sig \<noteq> SIGBREAK c" "raised e = Some k" "tty_present e"
    using default_handler_exception [OF that(1,2)] that(3) by simp
  show "phase s' \<noteq> TERMINATED"
    if "run c s ls s'" "phase s \<noteq> TERMINATED" "Receive (sigexitnum_pd c) \<notin> set ls"
    using run_no_exit [OF that] .
qed

theorem signal_thread_entry_dispatch_witness:
  "step linux_config \<lparr>phase = WAITING, pending_exception = None, actions = []\<rparr> (Receive 1)
        \<lparr>phase = DISPATCHING 1, pending_exception = None, actions = []\<rparr>
   \<and> step linux_config \<lparr>phase = DISPATCHING 1, pending_exception = None, actions = []\<rparr>
        (Handle (failing_upcall True))
        \<lparr>phase = WAITING, pending_exception = None,
           actions = [CallDispatch 1, Warning ''java.lang.Error'' 1]\<rparr>
   \<and> step linux_config \<lparr>phase = WAITING, pending_exception = None, actions = []\<rparr> (Receive 65)
        \<lparr>phase = TERMINATED, pending_exception = None, actions = []\<rparr>"
proof -
  let ?w = "\<lparr>phase = WAITING, pending_exception = None, actions = []\<rparr>"
  let ?d = "\<lparr>phase = DISPATCHING 1, pending_exception = None, actions = []\<rparr>"
  have "step linux_config ?w (Receive 1) (?w\<lparr>phase := DISPATCHING 1\<rparr>)"
    using signal_thread_entry_dispatch [of linux_config ?w _ _ 1] by (simp add: linux_config_def)
  moreover have "step linux_config ?d (Handle (failing_upcall True))
      ((handler linux_config (failing_upcall True) 1 ?d)\<lparr>phase := WAITING\<rparr>)"
    using signal_thread_entry_dispatch [of linux_config ?d _ _ 1 "failing_upcall True"] by simp
  moreover have "step linux_config ?w (Receive 65) (?w\<lparr>phase := TERMINATED\<rparr>)"
    by (rule receive_exit) (simp_all add: linux_config_def)
  ultimately show ?thesis
    by (simp add: handler_def default_handler_def failing_upcall_def linux_config_def do_actions_def)
qed

text \<open>
  The claim as the spec states it says the exception is logged and cleared. With
  \<open>tty == nullptr\<close> the code clears it without logging anything.
\<close>

theorem signal_thread_entry_counterexample:
  "step linux_config \<lparr>phase = DISPATCHING 1, pending_exception = None, actions = []\<rparr>
        (Handle (failing_upcall False))
        \<lparr>phase = WAITING, pending_exception = None, actions = [CallDispatch 1]\<rparr>
   \<and> raised (failing_upcall False) = Some ''java.lang.Error''
   \<and> Warning ''java.lang.Error'' 1 \<notin> set [CallDispatch 1]"
proof -
  let ?d = "\<lparr>phase = DISPATCHING 1, pending_exception = None, actions = []\<rparr>"
  have "step linux_config ?d (Handle (failing_upcall False))
      ((handler linux_config (failing_upcall False) 1 ?d)\<lparr>phase := WAITING\<rparr>)"
    by (rule dispatch) simp
  then show ?thesis
    by (simp add: handler_def default_handler_def failing_upcall_def linux_config_def do_actions_def)
qed

section \<open>Properties of \<open>os::malloc\<close>, \<open>os::realloc\<close> and \<open>os::free\<close>\<close>

lemma revive_mark_block_as_dead:
  "headers st header = Some h \<Longrightarrow> hdr_alive h \<Longrightarrow> revive header (mark_block_as_dead header st) = st"
proof -
  assume h: "headers st header = Some h" and a: "hdr_alive h"
  from a have "h\<lparr>hdr_alive := True\<rparr> = h" by simp
  with h have "(headers st)(header \<mapsto> h\<lparr>hdr_alive := True\<rparr>) = headers st"
    by (simp add: fun_upd_idem)
  with h show ?thesis by (simp add: revive_def mark_block_as_dead_def)
qed

lemma mark_block_as_dead_header:
  "headers st header = Some h \<Longrightarrow>
   headers (mark_block_as_dead header st) header = Some (h\<lparr>hdr_alive := False\<rparr>)"
  by (simp add: mark_block_as_dead_def)

lemma os_malloc_live_block:
  assumes "handle_malloc env st n = None" "os_malloc env cfg st n f = (p, st')" "p \<noteq> 0"
  shows "live_block cfg st' p f"
  using assms
  by (auto simp: os_malloc_def Let_def record_malloc_def live_block_def malloc_header_def account_def
      split: if_splits)

lemma live_block_os_free:
  assumes "handle_free env st p = None" "live_block cfg st p f"
  shows "\<exists>st'. os_free env cfg st p = Inr st'"
  using assms
  by (auto simp: os_free_def live_block_def record_free_def mark_block_as_dead_def deaccount_def Let_def
      split: option.splits if_splits)


lemma sample_malloc:
  "os_malloc exhausted_after_first sample_config empty_state 100 7 =
     (0x1010, \<lparr>c_heap = [0x1000 \<mapsto> 118],
               headers = [0x1000 \<mapsto> \<lparr>hdr_size = 100, hdr_flags = 7, hdr_alive = True\<rparr>],
               malloc_bytes = (\<lambda>f. 0)(7 := 100), malloc_count = (\<lambda>f. 0)(7 := 1)\<rparr>)"
  by (simp add: os_malloc_def exhausted_after_first_def sample_config_def empty_state_def Let_def
        check_exceeds_limit_def overhead_per_malloc_def record_malloc_def account_def)

lemma os_realloc_traced_failure:
  assumes nh: "handle_realloc env st p sz f = None"
      and lb: "live_block cfg st p f"
      and fail: "sys_realloc env
                   (if nmt_enabled cfg then mark_block_as_dead (p - unat (sizeof_MallocHeader cfg)) st else st)
                   (if nmt_enabled cfg then p - unat (sizeof_MallocHeader cfg) else p)
                   (if nmt_enabled cfg then max 1 sz + overhead_per_malloc cfg else max 1 sz) = 0"
  shows "os_realloc_traced env cfg st p sz f =
           (Inr (0, st),
            if nmt_enabled cfg then
              if realloc_refused_early cfg st p sz f then []
              else [MarkBlockAsDead (p - unat (sizeof_MallocHeader cfg)),
                    SysRealloc (p - unat (sizeof_MallocHeader cfg)) (max 1 sz + overhead_per_malloc cfg),
                    Revive (p - unat (sizeof_MallocHeader cfg))]
            else [SysRealloc p (max 1 sz)])"
proof -
  from lb have p: "p \<noteq> 0" by (simp add: live_block_def)
  show ?thesis
  proof (cases "nmt_enabled cfg")
    case False
    with nh p fail show ?thesis by (simp add: os_realloc_traced_def Let_def)
  next
    case True
    let ?a = "p - unat (sizeof_MallocHeader cfg)"
    from lb True obtain h where mh: "malloc_header cfg st p = Some (?a, h)"
      and h: "hdr_alive h" "hdr_flags h = f"
      by (auto simp: live_block_def malloc_header_def split: option.splits if_splits)
    then have hd: "headers st ?a = Some h" by (auto simp: malloc_header_def split: if_splits)
    have rv: "revive ?a (mark_block_as_dead ?a st) = st" using hd h(1) by (rule revive_mark_block_as_dead)
    from fail True have pf: "sys_realloc env (mark_block_as_dead ?a st) ?a (max 1 sz + overhead_per_malloc cfg) = 0"
      by simp
    show ?thesis
    proof (cases "realloc_refused_early cfg st p sz f")
      case refused: True
      with nh p True mh show ?thesis
        by (auto simp: os_realloc_traced_def realloc_refused_early_def Let_def)
    next
      case reached: False
      with nh p True mh h rv pf show ?thesis
        by (auto simp: os_realloc_traced_def realloc_refused_early_def Let_def)
    qed
  qed
qed

lemma os_realloc_failure:
  assumes nh: "handle_realloc env st p sz f = None"
      and lb: "live_block cfg st p f"
      and fail: "sys_realloc env
                   (if nmt_enabled cfg then mark_block_as_dead (p - unat (sizeof_MallocHeader cfg)) st else st)
                   (if nmt_enabled cfg then p - unat (sizeof_MallocHeader cfg) else p)
                   (if nmt_enabled cfg then max 1 sz + overhead_per_malloc cfg else max 1 sz) = 0"
  shows "os_realloc env cfg st p sz f = Inr (0, st)
       \<and> (handle_free env st p = None \<longrightarrow> (\<exists>st'. os_free env cfg st p = Inr st'))
       \<and> (nmt_enabled cfg \<longrightarrow>
            (case malloc_header cfg (mark_block_as_dead (p - unat (sizeof_MallocHeader cfg)) st) p of
               None \<Rightarrow> False
             | Some (header, h) \<Rightarrow> \<not> hdr_alive h)
            \<and> revive (p - unat (sizeof_MallocHeader cfg))
                  (mark_block_as_dead (p - unat (sizeof_MallocHeader cfg)) st) = st)"
proof (intro conjI impI)
  show "os_realloc env cfg st p sz f = Inr (0, st)"
    by (simp add: os_realloc_def os_realloc_traced_failure [OF nh lb fail])
next
  assume "handle_free env st p = None"
  then show "\<exists>st'. os_free env cfg st p = Inr st'" using lb by (rule live_block_os_free)
next
  assume en: "nmt_enabled cfg"
  let ?a = "p - unat (sizeof_MallocHeader cfg)"
  from lb en obtain h where mh: "malloc_header cfg st p = Some (?a, h)" and h: "hdr_alive h"
    by (auto simp: live_block_def malloc_header_def split: option.splits if_splits)
  then have hd: "headers st ?a = Some h" by (auto simp: malloc_header_def split: if_splits)
  from mh have ge: "\<not> p < unat (sizeof_MallocHeader cfg)" by (auto simp: malloc_header_def split: if_splits)
  show "case malloc_header cfg (mark_block_as_dead ?a st) p of None \<Rightarrow> False | Some (header, h) \<Rightarrow> \<not> hdr_alive h"
    using ge mark_block_as_dead_header [OF hd] by (simp add: malloc_header_def)
  show "revive ?a (mark_block_as_dead ?a st) = st" using hd h by (rule revive_mark_block_as_dead)
qed

text \<open>
  C1. A pointer returned by \<open>os::malloc\<close> with flags \<open>f\<close> is a live block. For a live
  block that the pre-initialization handler does not take over, \<open>os::realloc\<close> with a
  failing platform \<open>realloc\<close> returns null and leaves the state as it was: the block is
  still tracked, its accounting is unchanged and \<open>os::free\<close> accepts it. With tracking
  on, unless the overflow or the limit test has returned before, \<open>os::realloc\<close> performs
  exactly three operations on the block, in this order: it marks the record dead, calls
  the platform \<open>realloc\<close> on the header, and revives the record. The platform is called
  in the state where the record is marked dead, and reviving gives the original state
  back. Without tracking it only calls the platform \<open>realloc\<close>.
\<close>

theorem os_realloc_failure_keeps_block:
  "(handle_malloc env st0 n = None \<and> os_malloc env cfg st0 n f = (p, st) \<and> p \<noteq> 0 \<longrightarrow> live_block cfg st p f)
   \<and> (handle_realloc env st p sz f = None \<and> live_block cfg st p f
        \<and> sys_realloc env
              (if nmt_enabled cfg then mark_block_as_dead (p - unat (sizeof_MallocHeader cfg)) st else st)
              (if nmt_enabled cfg then p - unat (sizeof_MallocHeader cfg) else p)
              (if nmt_enabled cfg then max 1 sz + overhead_per_malloc cfg else max 1 sz) = 0 \<longrightarrow>
        os_realloc env cfg st p sz f = Inr (0, st)
        \<and> os_realloc_traced env cfg st p sz f =
             (Inr (0, st),
              if nmt_enabled cfg then
                if realloc_refused_early cfg st p sz f then []
                else [MarkBlockAsDead (p - unat (sizeof_MallocHeader cfg)),
                      SysRealloc (p - unat (sizeof_MallocHeader cfg)) (max 1 sz + overhead_per_malloc cfg),
                      Revive (p - unat (sizeof_MallocHeader cfg))]
              else [SysRealloc p (max 1 sz)])
        \<and> (handle_free env st p = None \<longrightarrow> (\<exists>st'. os_free env cfg st p = Inr st'))
        \<and> (nmt_enabled cfg \<longrightarrow>
             (case malloc_header cfg (mark_block_as_dead (p - unat (sizeof_MallocHeader cfg)) st) p of
                None \<Rightarrow> False
              | Some (header, h) \<Rightarrow> \<not> hdr_alive h)
             \<and> revive (p - unat (sizeof_MallocHeader cfg))
                   (mark_block_as_dead (p - unat (sizeof_MallocHeader cfg)) st) = st))"
proof (intro conjI impI; (elim conjE)?)
  show "live_block cfg st p f"
    if "handle_malloc env st0 n = None" "os_malloc env cfg st0 n f = (p, st)" "p \<noteq> 0"
    using that by (rule os_malloc_live_block)
next
  assume a: "handle_realloc env st p sz f = None" "live_block cfg st p f"
    "sys_realloc env
       (if nmt_enabled cfg then mark_block_as_dead (p - unat (sizeof_MallocHeader cfg)) st else st)
       (if nmt_enabled cfg then p - unat (sizeof_MallocHeader cfg) else p)
       (if nmt_enabled cfg then max 1 sz + overhead_per_malloc cfg else max 1 sz) = 0"
  note r = os_realloc_failure [OF a]
  from r show "os_realloc env cfg st p sz f = Inr (0, st)" by (rule conjunct1)
  show "os_realloc_traced env cfg st p sz f =
             (Inr (0, st),
              if nmt_enabled cfg then
                if realloc_refused_early cfg st p sz f then []
                else [MarkBlockAsDead (p - unat (sizeof_MallocHeader cfg)),
                      SysRealloc (p - unat (sizeof_MallocHeader cfg)) (max 1 sz + overhead_per_malloc cfg),
                      Revive (p - unat (sizeof_MallocHeader cfg))]
              else [SysRealloc p (max 1 sz)])"
    by (rule os_realloc_traced_failure [OF a])
  show "\<exists>st'. os_free env cfg st p = Inr st'" if "handle_free env st p = None"
    using r that by blast
  show "case malloc_header cfg (mark_block_as_dead (p - unat (sizeof_MallocHeader cfg)) st) p of
          None \<Rightarrow> False | Some (header, h) \<Rightarrow> \<not> hdr_alive h"
    and "revive (p - unat (sizeof_MallocHeader cfg))
           (mark_block_as_dead (p - unat (sizeof_MallocHeader cfg)) st) = st"
    if "nmt_enabled cfg"
    using r that by blast+
qed

text \<open>
  The witness: \<open>os::malloc(100, 7)\<close> on the empty heap, then \<open>os::realloc\<close> to 200 bytes
  with a platform that always fails, and with one that fails only when the header it
  is given is marked dead (so that the null result shows the mark was there at the
  call).
\<close>

theorem os_realloc_failure_keeps_block_witness:
  "os_malloc exhausted_after_first sample_config empty_state 100 7 = (0x1010, one_block)
   \<and> os_realloc exhausted_after_first sample_config one_block 0x1010 200 7 = Inr (0, one_block)
   \<and> os_realloc_traced exhausted_after_first sample_config one_block 0x1010 200 7
       = (Inr (0, one_block), [MarkBlockAsDead 0x1000, SysRealloc 0x1000 218, Revive 0x1000])
   \<and> os_realloc_traced fails_on_dead_header sample_config one_block 0x1010 200 7
       = (Inr (0, one_block), [MarkBlockAsDead 0x1000, SysRealloc 0x1000 218, Revive 0x1000])
   \<and> sys_realloc fails_on_dead_header one_block 0x1000 218 = 0x2000
   \<and> (\<exists>st'. os_free exhausted_after_first sample_config one_block 0x1010 = Inr st')"
proof -
  have m: "os_malloc exhausted_after_first sample_config empty_state 100 7 = (0x1010, one_block)"
    by (simp add: sample_malloc one_block_def)
  have nh: "handle_realloc exhausted_after_first one_block 0x1010 200 7 = None"
    and nh': "handle_realloc fails_on_dead_header one_block 0x1010 200 7 = None"
    and nf: "handle_free exhausted_after_first one_block 0x1010 = None"
    and nm: "handle_malloc exhausted_after_first empty_state 100 = None"
    by (simp_all add: exhausted_after_first_def fails_on_dead_header_def)
  have fail: "sys_realloc exhausted_after_first
       (if nmt_enabled sample_config
        then mark_block_as_dead (0x1010 - unat (sizeof_MallocHeader sample_config)) one_block else one_block)
       (if nmt_enabled sample_config then 0x1010 - unat (sizeof_MallocHeader sample_config) else 0x1010)
       (if nmt_enabled sample_config then max 1 200 + overhead_per_malloc sample_config else max 1 200) = 0"
    by (simp add: exhausted_after_first_def)
  have fail': "sys_realloc fails_on_dead_header
       (if nmt_enabled sample_config
        then mark_block_as_dead (0x1010 - unat (sizeof_MallocHeader sample_config)) one_block else one_block)
       (if nmt_enabled sample_config then 0x1010 - unat (sizeof_MallocHeader sample_config) else 0x1010)
       (if nmt_enabled sample_config then max 1 200 + overhead_per_malloc sample_config else max 1 200) = 0"
    by (simp add: fails_on_dead_header_def sample_config_def mark_block_as_dead_def one_block_def)
  have alive: "sys_realloc fails_on_dead_header one_block 0x1000 218 = 0x2000"
    by (simp add: fails_on_dead_header_def one_block_def)
  have reached: "\<not> realloc_refused_early sample_config one_block 0x1010 200 7"
    by (simp add: realloc_refused_early_def sample_config_def overhead_per_malloc_def
          check_exceeds_limit_def malloc_header_def one_block_def)
  have ops: "(if nmt_enabled sample_config then
                if realloc_refused_early sample_config one_block 0x1010 200 7 then []
                else [MarkBlockAsDead (0x1010 - unat (sizeof_MallocHeader sample_config)),
                      SysRealloc (0x1010 - unat (sizeof_MallocHeader sample_config))
                        (max 1 200 + overhead_per_malloc sample_config),
                      Revive (0x1010 - unat (sizeof_MallocHeader sample_config))]
              else [SysRealloc 0x1010 (max 1 200)])
             = [MarkBlockAsDead 0x1000, SysRealloc 0x1000 218, Revive 0x1000]"
    using reached by (simp add: sample_config_def overhead_per_malloc_def)
  note T = os_realloc_failure_keeps_block [where env = exhausted_after_first and ?st0.0 = empty_state
      and n = 100 and cfg = sample_config and f = 7 and p = "0x1010" and st = one_block and sz = 200]
  note T' = os_realloc_failure_keeps_block [where env = fails_on_dead_header and ?st0.0 = empty_state
      and n = 100 and cfg = sample_config and f = 7 and p = "0x1010" and st = one_block and sz = 200]
  have lb: "live_block sample_config one_block 0x1010 7"
    by (rule mp [OF T [THEN conjunct1]]) (simp add: nm m)
  have r: "os_realloc exhausted_after_first sample_config one_block 0x1010 200 7 = Inr (0, one_block)"
    and t: "os_realloc_traced exhausted_after_first sample_config one_block 0x1010 200 7
       = (Inr (0, one_block), [MarkBlockAsDead 0x1000, SysRealloc 0x1000 218, Revive 0x1000])"
    and fr: "handle_free exhausted_after_first one_block 0x1010 = None \<longrightarrow>
           (\<exists>st'. os_free exhausted_after_first sample_config one_block 0x1010 = Inr st')"
    using mp [OF T [THEN conjunct2]] nh lb fail unfolding ops by blast+
  have t': "os_realloc_traced fails_on_dead_header sample_config one_block 0x1010 200 7
       = (Inr (0, one_block), [MarkBlockAsDead 0x1000, SysRealloc 0x1000 218, Revive 0x1000])"
    using mp [OF T' [THEN conjunct2]] nh' lb fail' unfolding ops by blast
  from fr nf have "\<exists>st'. os_free exhausted_after_first sample_config one_block 0x1010 = Inr st'"
    by (rule mp)
  with m r t t' alive show ?thesis by (intro conjI)
qed

text \<open>
  C2. \<open>os::malloc 0\<close> is \<open>os::malloc 1\<close> (whenever the pre-initialization handler
  treats the two sizes alike; after initialization it declines both). When the handler
  declines, the limit check passes and the platform allocator succeeds, the pointer
  returned for size 0 is not null, is a live block, and \<open>os::free\<close> accepts it. (The
  overhead of the ledger is a parameter of the model; \<open>1 + overhead\<close> must not wrap.)
\<close>

theorem os_malloc_zero_size:
  "(handle_malloc env st 0 = handle_malloc env st 1 \<longrightarrow> os_malloc env cfg st 0 f = os_malloc env cfg st 1 f)
   \<and> (handle_malloc env st 0 = None \<and> \<not> check_exceeds_limit cfg st 1 f
        \<and> overhead_per_malloc cfg \<noteq> - 1
        \<and> sys_malloc env st (1 + overhead_per_malloc cfg) \<noteq> 0 \<longrightarrow>
        fst (os_malloc env cfg st 0 f) \<noteq> 0
        \<and> live_block cfg (snd (os_malloc env cfg st 0 f)) (fst (os_malloc env cfg st 0 f)) f
        \<and> (handle_free env (snd (os_malloc env cfg st 0 f)) (fst (os_malloc env cfg st 0 f)) = None \<longrightarrow>
             (\<exists>st'. os_free env cfg (snd (os_malloc env cfg st 0 f)) (fst (os_malloc env cfg st 0 f)) = Inr st')))"
proof (intro conjI impI; (elim conjE)?)
  show "os_malloc env cfg st 0 f = os_malloc env cfg st 1 f" if "handle_malloc env st 0 = handle_malloc env st 1"
    using that by (simp add: os_malloc_def split: option.splits)
next
  assume nh: "handle_malloc env st 0 = None" and lim: "\<not> check_exceeds_limit cfg st 1 f"
    and ov: "overhead_per_malloc cfg \<noteq> - 1" and ok: "sys_malloc env st (1 + overhead_per_malloc cfg) \<noteq> 0"
  have no: "\<not> 1 + overhead_per_malloc cfg < 1"
  proof
    assume "1 + overhead_per_malloc cfg < 1"
    then have "1 + overhead_per_malloc cfg = 0" by (simp add: word_less_1)
    then have "overhead_per_malloc cfg = - 1" by (simp add: add_eq_0_iff)
    with ov show False by simp
  qed
  show nz: "fst (os_malloc env cfg st 0 f) \<noteq> 0"
    using nh lim no ok by (simp add: os_malloc_def Let_def record_malloc_def)
  show lb: "live_block cfg (snd (os_malloc env cfg st 0 f)) (fst (os_malloc env cfg st 0 f)) f"
    using nh nz by (intro os_malloc_live_block [where n = 0]) simp_all
  show "\<exists>st'. os_free env cfg (snd (os_malloc env cfg st 0 f)) (fst (os_malloc env cfg st 0 f)) = Inr st'"
    if "handle_free env (snd (os_malloc env cfg st 0 f)) (fst (os_malloc env cfg st 0 f)) = None"
    using that lb by (rule live_block_os_free)
qed

theorem os_malloc_zero_size_witness:
  "os_malloc exhausted_after_first sample_config empty_state 0 7
     = os_malloc exhausted_after_first sample_config empty_state 1 7
   \<and> fst (os_malloc exhausted_after_first sample_config empty_state 0 7) = 0x1010
   \<and> (\<exists>st'. os_free exhausted_after_first sample_config
               (snd (os_malloc exhausted_after_first sample_config empty_state 0 7))
               (fst (os_malloc exhausted_after_first sample_config empty_state 0 7)) = Inr st')"
proof -
  have h: "handle_malloc exhausted_after_first empty_state 0 = None"
      "handle_malloc exhausted_after_first empty_state 0 = handle_malloc exhausted_after_first empty_state 1"
      "\<not> check_exceeds_limit sample_config empty_state 1 7"
      "overhead_per_malloc sample_config \<noteq> - 1"
      "sys_malloc exhausted_after_first empty_state (1 + overhead_per_malloc sample_config) \<noteq> 0"
    by (simp_all add: exhausted_after_first_def check_exceeds_limit_def sample_config_def
          overhead_per_malloc_def empty_state_def)
  have nf: "handle_free exhausted_after_first st p = None" for st p
    by (simp add: exhausted_after_first_def)
  have e: "fst (os_malloc exhausted_after_first sample_config empty_state 0 7) = 0x1010"
    by (simp add: os_malloc_def exhausted_after_first_def sample_config_def empty_state_def Let_def
        check_exceeds_limit_def overhead_per_malloc_def record_malloc_def account_def)
  note T = os_malloc_zero_size [of exhausted_after_first empty_state sample_config 7]
  have a: "os_malloc exhausted_after_first sample_config empty_state 0 7
     = os_malloc exhausted_after_first sample_config empty_state 1 7"
    by (rule mp [OF T [THEN conjunct1]]) (rule h(2))
  have b: "handle_free exhausted_after_first
        (snd (os_malloc exhausted_after_first sample_config empty_state 0 7))
        (fst (os_malloc exhausted_after_first sample_config empty_state 0 7)) = None \<longrightarrow>
      (\<exists>st'. os_free exhausted_after_first sample_config
               (snd (os_malloc exhausted_after_first sample_config empty_state 0 7))
               (fst (os_malloc exhausted_after_first sample_config empty_state 0 7)) = Inr st')"
    using mp [OF T [THEN conjunct2]] h(1,3,4,5) by (elim meta_impE conjE) (intro conjI)
  from b nf have "\<exists>st'. os_free exhausted_after_first sample_config
               (snd (os_malloc exhausted_after_first sample_config empty_state 0 7))
               (fst (os_malloc exhausted_after_first sample_config empty_state 0 7)) = Inr st'"
    by (rule mp)
  with a e show ?thesis by (intro conjI)
qed

text \<open>
  C3. \<open>outer_size < size\<close> holds exactly when \<open>size + overhead\<close> overflows 64 bits
  (\<open>size\<close> is the normalised size, \<open>max 1 size\<close>). In that case \<open>os::malloc\<close>
  returns null and leaves the state untouched (nothing allocated, nothing recorded),
  and so does \<open>os::realloc\<close> of a non-null pointer, once the pre-initialization
  handler has declined the call.
\<close>

theorem os_malloc_realloc_overflow:
  "(max 1 sz + overhead_per_malloc cfg < max 1 sz)
      = (2 ^ 64 \<le> unat (max 1 sz) + unat (overhead_per_malloc cfg))
   \<and> (handle_malloc env st sz = None \<and> max 1 sz + overhead_per_malloc cfg < max 1 sz \<longrightarrow>
        os_malloc env cfg st sz f = (0, st))
   \<and> (handle_realloc env st p sz f = None \<and> p \<noteq> 0
        \<and> max 1 sz + overhead_per_malloc cfg < max 1 sz \<longrightarrow>
        os_realloc env cfg st p sz f = Inr (0, st))"
proof (intro conjI impI; (elim conjE)?)
  show "(max 1 sz + overhead_per_malloc cfg < max 1 sz)
      = (2 ^ 64 \<le> unat (max 1 sz) + unat (overhead_per_malloc cfg))"
    using no_olen_add_nat [of "max 1 sz" "overhead_per_malloc cfg"] by (simp add: not_le [symmetric])
next
  assume "handle_malloc env st sz = None" "max 1 sz + overhead_per_malloc cfg < max 1 sz"
  then show "os_malloc env cfg st sz f = (0, st)" by (simp add: os_malloc_def Let_def)
next
  assume a: "handle_realloc env st p sz f = None" "p \<noteq> 0" "max 1 sz + overhead_per_malloc cfg < max 1 sz"
  from a(3) have "nmt_enabled cfg" by (cases "nmt_enabled cfg") (simp_all add: overhead_per_malloc_def)
  with a show "os_realloc env cfg st p sz f = Inr (0, st)"
    by (simp add: os_realloc_def os_realloc_traced_def Let_def)
qed


theorem os_malloc_realloc_overflow_witness:
  "max 1 0xFFFFFFFFFFFFFFFD + overhead_per_malloc sample_config < max 1 (0xFFFFFFFFFFFFFFFD :: size_t)
   \<and> os_malloc exhausted_after_first sample_config empty_state 0xFFFFFFFFFFFFFFFD 7 = (0, empty_state)
   \<and> os_realloc exhausted_after_first sample_config one_block 0x1010 0xFFFFFFFFFFFFFFFD 7 = Inr (0, one_block)"
proof -
  have o: "max 1 0xFFFFFFFFFFFFFFFD + overhead_per_malloc sample_config < max 1 (0xFFFFFFFFFFFFFFFD :: size_t)"
    by (simp add: overhead_per_malloc_def sample_config_def max_def)
  have h: "handle_malloc exhausted_after_first empty_state 0xFFFFFFFFFFFFFFFD = None"
    "handle_realloc exhausted_after_first one_block 0x1010 0xFFFFFFFFFFFFFFFD 7 = None"
    by (simp_all add: exhausted_after_first_def)
  have p: "(0x1010 :: address) \<noteq> 0" by simp
  from os_malloc_realloc_overflow [of "0xFFFFFFFFFFFFFFFD" sample_config exhausted_after_first empty_state 7 "0x1010"]
    os_malloc_realloc_overflow [of "0xFFFFFFFFFFFFFFFD" sample_config exhausted_after_first one_block 7 "0x1010"]
    o h p
  show ?thesis by simp
qed


end
